theory Spec2Isabelle
  imports Main "HOL-Library.Word" "HOL-Library.Monad_Syntax" "HOL-Library.Sublist"
begin

unbundle bit_operations_syntax

section \<open>Pads of PDCurses: \<^verbatim>\<open>graphics/pdcurs34/pdcurses/pdc_pad.c\<close>\<close>

subsection \<open>Data\<close>

text \<open>
  A cell is a \<^verbatim>\<open>chtype\<close>. The rows of a window are \<^verbatim>\<open>chtype *\<close> pointers into
  separately allocated cell arrays, and a sub-pad points into the arrays of its parent, so
  the cells live in an explicit store: a map from block addresses to cell arrays. A row
  pointer is a block address and a cell offset into that block.

  A C \<^verbatim>\<open>int\<close> has 32 bits: its values are the integers from \<open>INT_MIN\<close> to
  \<open>INT_MAX\<close>. Signed overflow is undefined in C, and so is an access outside an array:
  both are the value \<open>None\<close> of the model. Every sum and difference of \<^verbatim>\<open>int\<close>s that
  the functions compute is therefore tested with \<open>in_int\<close>, in the order in which C
  evaluates them, and \<open>None\<close> never stands for the C result \<^verbatim>\<open>ERR\<close>, which is an
  ordinary return value.
\<close>

definition INT_MAX :: int where "INT_MAX = 2147483647"
definition INT_MIN :: int where "INT_MIN = - 2147483648"

definition in_int :: "int \<Rightarrow> bool" where
  "in_int x \<longleftrightarrow> INT_MIN \<le> x \<and> x \<le> INT_MAX"

type_synonym chtype = "32 word"

datatype rowptr = NullRow | RowPtr nat int

type_synonym cellstore = "nat \<Rightarrow> chtype list option"

text \<open>
  The fields of \<^verbatim>\<open>WINDOW\<close> that \<^verbatim>\<open>pdc_pad.c\<close> reads or writes (a leading
  underscore is not an Isabelle identifier: \<^verbatim>\<open>_cury\<close> is \<open>w_cury\<close>). Windows are values
  here, so the back pointer \<^verbatim>\<open>_parent\<close>, which no function of this file reads, is not
  represented. The pad and \<^verbatim>\<open>curscr\<close> are different windows (\<^verbatim>\<open>curscr\<close> never has a
  pad flag).
\<close>

record WINDOW =
  w_cury :: int
  w_curx :: int
  w_maxy :: int
  w_maxx :: int
  w_begy :: int
  w_begx :: int
  w_flags :: int
  w_attrs :: chtype
  w_clear :: bool
  w_leaveit :: bool
  w_scroll :: bool
  w_nodelay :: bool
  w_use_keypad :: bool
  w_y :: "rowptr list"
  w_firstch :: "int list"
  w_lastch :: "int list"

text \<open>
  The process-wide state: the globals \<^verbatim>\<open>LINES\<close>, \<^verbatim>\<open>COLS\<close> and \<^verbatim>\<open>curscr\<close> of the
  library, the cell store, and the six static variables of \<^verbatim>\<open>pdc_pad.c\<close>.
\<close>

record curses =
  LINES :: int
  COLS :: int
  curscr :: WINDOW
  mem :: cellstore
  save_pminrow :: int
  save_pmincol :: int
  save_sminrow :: int
  save_smincol :: int
  save_smaxrow :: int
  save_smaxcol :: int

text \<open>
  Constants of \<^verbatim>\<open>curses.h\<close>, which is not among the sources; the values are those of
  PDCurses. No theorem below depends on the values beyond \<open>OK \<noteq> ERR\<close> and the two flag
  bits being different bits.
\<close>

definition OK :: int where "OK = 0"
definition ERR :: int where "ERR = - 1"
definition PAD :: int where "PAD = 16"
definition SUBPAD :: int where "SUBPAD = 32"
definition NO_CHANGE :: int where "NO_CHANGE = - 1"

subsection \<open>Array and pointer access\<close>

definition idx :: "'a list \<Rightarrow> int \<Rightarrow> 'a option" where
  "idx xs i = (if 0 \<le> i \<and> i < int (length xs) then Some (xs ! nat i) else None)"

definition upd :: "'a list \<Rightarrow> int \<Rightarrow> 'a \<Rightarrow> 'a list option" where
  "upd xs i v = (if 0 \<le> i \<and> i < int (length xs) then Some (xs[nat i := v]) else None)"

fun ptr_add :: "rowptr \<Rightarrow> int \<Rightarrow> rowptr option" where
  "ptr_add NullRow k = None"
| "ptr_add (RowPtr b off) k = Some (RowPtr b (off + k))"

text \<open>
  \<^verbatim>\<open>memcpy(dst, src, n * sizeof(chtype))\<close>. A negative \<open>n\<close> becomes a huge
  \<^verbatim>\<open>size_t\<close> in C; that, a range outside either block, and overlapping ranges are
  undefined, hence \<open>None\<close>. A block is one C object, so the byte count of a range
  inside a block fits \<^verbatim>\<open>size_t\<close>.
\<close>

fun memcpy :: "cellstore \<Rightarrow> rowptr \<Rightarrow> rowptr \<Rightarrow> int \<Rightarrow> cellstore option" where
  "memcpy m (RowPtr db doff) (RowPtr sb soff) n =
     (case (m db, m sb) of
        (Some dcells, Some scells) \<Rightarrow>
          if 0 \<le> n \<and> 0 \<le> soff \<and> soff + n \<le> int (length scells)
             \<and> 0 \<le> doff \<and> doff + n \<le> int (length dcells)
             \<and> \<not> (db = sb \<and> 0 < n \<and> doff < soff + n \<and> soff < doff + n)
          then Some (m(db \<mapsto> take (nat doff) dcells
                              @ take (nat n) (drop (nat soff) scells)
                              @ drop (nat (doff + n)) dcells))
          else None
      | _ \<Rightarrow> None)"
| "memcpy m _ _ n = None"

text \<open>The cell at row \<open>r\<close>, column \<open>c\<close> of a window, read through its row pointer.\<close>

definition cell :: "cellstore \<Rightarrow> WINDOW \<Rightarrow> int \<Rightarrow> int \<Rightarrow> chtype option" where
  "cell m win r c =
     (case idx (w_y win) r of
        Some (RowPtr b off) \<Rightarrow> (case m b of Some cells \<Rightarrow> idx cells (off + c) | None \<Rightarrow> None)
      | _ \<Rightarrow> None)"

subsection \<open>\<^verbatim>\<open>pnoutrefresh\<close>, \<^verbatim>\<open>prefresh\<close>, \<^verbatim>\<open>pechochar\<close>\<close>

text \<open>
  The body of the \<^verbatim>\<open>while\<close> loop of \<^verbatim>\<open>pnoutrefresh\<close> for one pair of rows with
  \<^verbatim>\<open>pline < w->_maxy\<close>: the copy, the two updates of the screen row's damage range and
  the reset of the pad row's. It adds no two \<^verbatim>\<open>int\<close>s: \<^verbatim>\<open>curscr->_y[sline] + sx1\<close> and
  \<^verbatim>\<open>w->_y[pline] + px\<close> move pointers.
\<close>

definition pnout_row ::
  "int \<Rightarrow> int \<Rightarrow> int \<Rightarrow> int \<Rightarrow> cellstore \<times> WINDOW \<times> WINDOW \<Rightarrow> int \<Rightarrow> int
     \<Rightarrow> (cellstore \<times> WINDOW \<times> WINDOW) option" where
  "pnout_row px sx1 sx2 num_cols s sline pline =
     (case s of (m, cur, w) \<Rightarrow>
        do {
          drow \<leftarrow> idx (w_y cur) sline;
          dst \<leftarrow> ptr_add drow sx1;
          srow \<leftarrow> idx (w_y w) pline;
          src \<leftarrow> ptr_add srow px;
          m' \<leftarrow> memcpy m dst src num_cols;
          f \<leftarrow> idx (w_firstch cur) sline;
          fc \<leftarrow> (if f = NO_CHANGE \<or> f > sx1 then upd (w_firstch cur) sline sx1
                 else Some (w_firstch cur));
          l \<leftarrow> idx (w_lastch cur) sline;
          lc \<leftarrow> (if sx2 > l then upd (w_lastch cur) sline sx2 else Some (w_lastch cur));
          wf \<leftarrow> upd (w_firstch w) pline NO_CHANGE;
          wl \<leftarrow> upd (w_lastch w) pline NO_CHANGE;
          Some (m', cur\<lparr>w_firstch := fc, w_lastch := lc\<rparr>, w\<lparr>w_firstch := wf, w_lastch := wl\<rparr>)
        })"

function pnout_loop ::
  "int \<Rightarrow> int \<Rightarrow> int \<Rightarrow> int \<Rightarrow> int \<Rightarrow> cellstore \<times> WINDOW \<times> WINDOW \<Rightarrow> int \<Rightarrow> int
     \<Rightarrow> (cellstore \<times> WINDOW \<times> WINDOW) option" where
  "pnout_loop px sx1 sy2 sx2 num_cols s sline pline =
     (if sline \<le> sy2 then
        (if pline < w_maxy (snd (snd s)) then
           (case pnout_row px sx1 sx2 num_cols s sline pline of
              None \<Rightarrow> None
            | Some s' \<Rightarrow>
                if in_int (sline + 1) \<and> in_int (pline + 1)
                then pnout_loop px sx1 sy2 sx2 num_cols s' (sline + 1) (pline + 1)
                else None)
         else if in_int (sline + 1) \<and> in_int (pline + 1)
              then pnout_loop px sx1 sy2 sx2 num_cols s (sline + 1) (pline + 1)
              else None)
      else Some s)"
  by pat_completeness auto
termination
  by (relation "measure (\<lambda>(px, sx1, sy2, sx2, num_cols, s, sline, pline). nat (sy2 + 1 - sline))")
     auto

declare pnout_loop.simps [simp del]

text \<open>
  The last \<^verbatim>\<open>if\<close> of \<^verbatim>\<open>pnoutrefresh\<close>, which places the cursor of \<^verbatim>\<open>curscr\<close>.
  \<^verbatim>\<open>&&\<close> evaluates its operands from the left and stops at the first that is false, so
  \<^verbatim>\<open>py + (sy2 - sy1)\<close> is computed only when the three tests before it hold, and
  \<^verbatim>\<open>px + (sx2 - sx1)\<close> only when the fourth holds as well.
\<close>

definition pnout_cursor ::
  "WINDOW \<Rightarrow> WINDOW \<Rightarrow> int \<Rightarrow> int \<Rightarrow> int \<Rightarrow> int \<Rightarrow> int \<Rightarrow> int \<Rightarrow> WINDOW option" where
  "pnout_cursor w cur py px sy1 sx1 sy2 sx2 =
     (if \<not> w_leaveit w \<and> w_cury w \<ge> py \<and> w_curx w \<ge> px then
        if in_int (sy2 - sy1) \<and> in_int (py + (sy2 - sy1)) then
          if w_cury w \<le> py + (sy2 - sy1) then
            if in_int (sx2 - sx1) \<and> in_int (px + (sx2 - sx1)) then
              if w_curx w \<le> px + (sx2 - sx1) then
                if in_int (w_cury w - py) \<and> in_int ((w_cury w - py) + sy1)
                   \<and> in_int (w_curx w - px) \<and> in_int ((w_curx w - px) + sx1)
                then Some (cur\<lparr>w_cury := (w_cury w - py) + sy1,
                               w_curx := (w_curx w - px) + sx1\<rparr>)
                else None
              else Some cur
            else None
          else Some cur
        else None
      else Some cur)"

text \<open>
  \<^verbatim>\<open>pnoutrefresh\<close>. The pad is passed and returned by value (\<open>None\<close> is the null
  pointer); the result is the returned \<^verbatim>\<open>int\<close>, the state and the pad. \<open>sline\<close> and
  \<open>pline\<close> are initialised from the arguments before these are clamped, as in the source,
  and the second screen test compares \<open>sy2\<close> with \<open>COLS\<close>, as in the source. Both
  operands of \<^verbatim>\<open>min\<close> are computed.
\<close>

definition pnoutrefresh ::
  "curses \<Rightarrow> WINDOW option \<Rightarrow> int \<Rightarrow> int \<Rightarrow> int \<Rightarrow> int \<Rightarrow> int \<Rightarrow> int
     \<Rightarrow> (int \<times> curses \<times> WINDOW option) option" where
  "pnoutrefresh st wp py0 px0 sy10 sx10 sy2 sx2 =
     (let sline = sy10; pline = py0 in
      case wp of
        None \<Rightarrow> Some (ERR, st, wp)
      | Some w \<Rightarrow>
          if w_flags w AND (PAD OR SUBPAD) = 0 \<or> sy2 \<ge> LINES st \<or> sy2 \<ge> COLS st
          then Some (ERR, st, wp)
          else
            let py = (if py0 < 0 then 0 else py0);
                px = (if px0 < 0 then 0 else px0);
                sy1 = (if sy10 < 0 then 0 else sy10);
                sx1 = (if sx10 < 0 then 0 else sx10)
            in
              if sy2 < sy1 \<or> sx2 < sx1 then Some (ERR, st, wp)
              else if in_int (sx2 - sx1) \<and> in_int (sx2 - sx1 + 1) \<and> in_int (w_maxx w - px)
              then
                let num_cols = min (sx2 - sx1 + 1) (w_maxx w - px) in
                case pnout_loop px sx1 sy2 sx2 num_cols (mem st, curscr st, w) sline pline of
                  None \<Rightarrow> None
                | Some (m1, cur1, w1) \<Rightarrow>
                    let (w2, cur2) =
                          (if w_clear w1
                           then (w1\<lparr>w_clear := False\<rparr>, cur1\<lparr>w_clear := True\<rparr>)
                           else (w1, cur1))
                    in
                      case pnout_cursor w2 cur2 py px sy1 sx1 sy2 sx2 of
                        None \<Rightarrow> None
                      | Some cur3 \<Rightarrow> Some (OK, st\<lparr>curscr := cur3, mem := m1\<rparr>, Some w2)
              else None)"

text \<open>
  \<^verbatim>\<open>doupdate\<close> and \<^verbatim>\<open>waddch\<close> are defined in files that are not among the sources;
  they are parameters. \<^verbatim>\<open>prefresh\<close> ignores what \<^verbatim>\<open>doupdate\<close> returns.
\<close>

type_synonym doupdate_fn = "curses \<Rightarrow> curses option"

type_synonym waddch_fn =
  "curses \<Rightarrow> WINDOW option \<Rightarrow> chtype \<Rightarrow> (int \<times> curses \<times> WINDOW option) option"

definition prefresh ::
  "doupdate_fn \<Rightarrow> curses \<Rightarrow> WINDOW option \<Rightarrow> int \<Rightarrow> int \<Rightarrow> int \<Rightarrow> int \<Rightarrow> int \<Rightarrow> int
     \<Rightarrow> (int \<times> curses \<times> WINDOW option) option" where
  "prefresh doupdate st win py px sy1 sx1 sy2 sx2 =
     (case pnoutrefresh st win py px sy1 sx1 sy2 sx2 of
        None \<Rightarrow> None
      | Some (r, st1, win1) \<Rightarrow>
          if r = ERR then Some (ERR, st1, win1)
          else (case doupdate st1 of
                  None \<Rightarrow> None
                | Some st2 \<Rightarrow> Some (OK, st2, win1)))"

definition pechochar ::
  "waddch_fn \<Rightarrow> doupdate_fn \<Rightarrow> curses \<Rightarrow> WINDOW option \<Rightarrow> chtype
     \<Rightarrow> (int \<times> curses \<times> WINDOW option) option" where
  "pechochar waddch doupdate st pad ch =
     (case waddch st pad ch of
        None \<Rightarrow> None
      | Some (r, st1, pad1) \<Rightarrow>
          if r = ERR then Some (ERR, st1, pad1)
          else prefresh doupdate st1 pad1 (save_pminrow st1) (save_pmincol st1)
                 (save_sminrow st1) (save_smincol st1) (save_smaxrow st1) (save_smaxcol st1))"

subsection \<open>\<^verbatim>\<open>newpad\<close> and \<^verbatim>\<open>subpad\<close>\<close>

text \<open>
  \<^verbatim>\<open>PDC_makenew\<close>, \<^verbatim>\<open>PDC_makelines\<close> and \<^verbatim>\<open>werase\<close> are defined in files that are
  not among the sources; \<^verbatim>\<open>newpad\<close> and \<^verbatim>\<open>subpad\<close> take them as parameters. Each
  returns its window (\<open>None\<close> is the null pointer) and the state, and so do \<^verbatim>\<open>newpad\<close>
  and \<^verbatim>\<open>subpad\<close> when no \<^verbatim>\<open>int\<close> overflows.
\<close>

type_synonym makenew_fn = "curses \<Rightarrow> int \<Rightarrow> int \<Rightarrow> int \<Rightarrow> int \<Rightarrow> WINDOW option \<times> curses"

type_synonym makelines_fn = "curses \<Rightarrow> WINDOW \<Rightarrow> WINDOW option \<times> curses"

type_synonym werase_fn = "curses \<Rightarrow> WINDOW \<Rightarrow> WINDOW \<times> curses"

definition newpad ::
  "makenew_fn \<Rightarrow> makelines_fn \<Rightarrow> werase_fn \<Rightarrow> curses \<Rightarrow> int \<Rightarrow> int
     \<Rightarrow> (WINDOW option \<times> curses) option" where
  "newpad makenew makelines werase st nlines ncols =
     (case makenew st nlines ncols (- 1) (- 1) of
        (None, st1) \<Rightarrow> Some (None, st1)
      | (Some win0, st1) \<Rightarrow>
          (case makelines st1 win0 of
             (None, st2) \<Rightarrow> Some (None, st2)
           | (Some win1, st2) \<Rightarrow>
               (case werase st2 win1 of
                  (win2, st3) \<Rightarrow>
                    if in_int (min (LINES st3) nlines - 1)
                       \<and> in_int (min (COLS st3) ncols - 1)
                    then
                      Some (Some (win2\<lparr>w_flags := PAD\<rparr>),
                            st3\<lparr>save_pminrow := 0, save_pmincol := 0,
                                save_sminrow := 0, save_smincol := 0,
                                save_smaxrow := min (LINES st3) nlines - 1,
                                save_smaxcol := min (COLS st3) ncols - 1\<rparr>)
                    else None)))"

text \<open>
  The \<^verbatim>\<open>for\<close> loop of \<^verbatim>\<open>subpad\<close>:
  \<^verbatim>\<open>win->_y[i] = (orig->_y[j++]) + k\<close> for \<open>i\<close> from 0 below \<open>nlines\<close>.
\<close>

function subpad_loop :: "int \<Rightarrow> WINDOW \<Rightarrow> int \<Rightarrow> WINDOW \<Rightarrow> int \<Rightarrow> int \<Rightarrow> WINDOW option" where
  "subpad_loop nlines orig k win i j =
     (if i < nlines then
        (case idx (w_y orig) j of
           None \<Rightarrow> None
         | Some row \<Rightarrow>
             (case ptr_add row k of
                None \<Rightarrow> None
              | Some p \<Rightarrow>
                  (case upd (w_y win) i p of
                     None \<Rightarrow> None
                   | Some ys \<Rightarrow>
                       if in_int (i + 1) \<and> in_int (j + 1)
                       then subpad_loop nlines orig k (win\<lparr>w_y := ys\<rparr>) (i + 1) (j + 1)
                       else None)))
      else Some win)"
  by pat_completeness auto
termination
  by (relation "measure (\<lambda>(nlines, orig, k, win, i, j). nat (nlines - i))") auto

declare subpad_loop.simps [simp del]

text \<open>
  \<^verbatim>\<open>subpad\<close>. The test that the window fits is an \<^verbatim>\<open>||\<close> of four comparisons,
  evaluated from the left up to the first that holds: the sums of the third are computed
  only when the first two fail, those of the fourth only when the third fails as well. The
  comparisons are with \<^verbatim>\<open>orig->_begy\<close> and \<^verbatim>\<open>orig->_begx\<close>, as in the source.
\<close>

definition subpad ::
  "makenew_fn \<Rightarrow> curses \<Rightarrow> WINDOW option \<Rightarrow> int \<Rightarrow> int \<Rightarrow> int \<Rightarrow> int
     \<Rightarrow> (WINDOW option \<times> curses) option" where
  "subpad makenew st origp nlines0 ncols0 begy begx =
     (let j = begy; k = begx in
      case origp of
        None \<Rightarrow> Some (None, st)
      | Some orig \<Rightarrow>
          if w_flags orig AND PAD = 0 then Some (None, st)
          else if begy < w_begy orig \<or> begx < w_begx orig then Some (None, st)
          else if in_int (begy + nlines0) \<and> in_int (w_begy orig + w_maxy orig) then
            if begy + nlines0 > w_begy orig + w_maxy orig then Some (None, st)
            else if in_int (begx + ncols0) \<and> in_int (w_begx orig + w_maxx orig) then
              if begx + ncols0 > w_begx orig + w_maxx orig then Some (None, st)
              else
                do {
                  nlines \<leftarrow> (if nlines0 = 0
                             then (if in_int (w_maxy orig - 1) \<and> in_int (w_maxy orig - 1 - j)
                                   then Some (w_maxy orig - 1 - j) else None)
                             else Some nlines0);
                  ncols \<leftarrow> (if ncols0 = 0
                            then (if in_int (w_maxx orig - 1) \<and> in_int (w_maxx orig - 1 - k)
                                  then Some (w_maxx orig - 1 - k) else None)
                            else Some ncols0);
                  case makenew st nlines ncols begy begx of
                    (None, st1) \<Rightarrow> Some (None, st1)
                  | (Some win0, st1) \<Rightarrow>
                      (case subpad_loop nlines orig k
                              (win0\<lparr>w_attrs := w_attrs orig, w_leaveit := w_leaveit orig,
                                    w_scroll := w_scroll orig, w_nodelay := w_nodelay orig,
                                    w_use_keypad := w_use_keypad orig\<rparr>) 0 j of
                         None \<Rightarrow> None
                       | Some win1 \<Rightarrow>
                           if in_int (min (LINES st1) nlines - 1)
                              \<and> in_int (min (COLS st1) ncols - 1)
                           then
                             Some (Some (win1\<lparr>w_flags := SUBPAD\<rparr>),
                                   st1\<lparr>save_pminrow := 0, save_pmincol := 0,
                                       save_sminrow := 0, save_smincol := 0,
                                       save_smaxrow := min (LINES st1) nlines - 1,
                                       save_smaxcol := min (COLS st1) ncols - 1\<rparr>)
                           else None)
                }
            else None
          else None)"

text \<open>
  Modelled from the spec: \<^verbatim>\<open>PDC_makenew\<close> is defined in a file that is not among the
  sources. The spec has it as \<open>allocate(height, width, originRow, originCol) -> Buffer |
  failure\<close>: a window of that size and origin whose rows are not yet materialised, or
  no window when the allocation fails (the first argument). It is used only to evaluate
  \<^verbatim>\<open>subpad\<close> on concrete inputs.
\<close>

definition PDC_makenew :: "bool \<Rightarrow> makenew_fn" where
  "PDC_makenew fails st nlines ncols begy begx =
     (if fails then (None, st)
      else (Some \<lparr>w_cury = 0, w_curx = 0, w_maxy = nlines, w_maxx = ncols,
                   w_begy = begy, w_begx = begx, w_flags = 0, w_attrs = 0,
                   w_clear = False, w_leaveit = False, w_scroll = False,
                   w_nodelay = False, w_use_keypad = False,
                   w_y = replicate (nat nlines) NullRow,
                   w_firstch = replicate (nat nlines) NO_CHANGE,
                   w_lastch = replicate (nat nlines) NO_CHANGE\<rparr>, st))"

subsection \<open>Notions used in the statements about pads\<close>

text \<open>
  \<open>paired sy2 maxy sline pline r\<close>: the screen row \<open>r\<close> is walked by a loop that starts
  at screen row \<open>sline\<close> and pad row \<open>pline\<close>, and the pad row that goes with it in
  lockstep, \<open>pline + (r - sline)\<close>, is inside the pad's height.
\<close>

definition paired :: "int \<Rightarrow> int \<Rightarrow> int \<Rightarrow> int \<Rightarrow> int \<Rightarrow> bool" where
  "paired sy2 maxy sline pline r \<longleftrightarrow> sline \<le> r \<and> r \<le> sy2 \<and> pline + (r - sline) < maxy"

text \<open>The lower end of a screen row's damage range after a copy starting at column \<open>sx1\<close>.\<close>

definition new_first :: "int \<Rightarrow> int \<Rightarrow> int" where
  "new_first sx1 f = (if f = NO_CHANGE \<or> sx1 < f then sx1 else f)"

text \<open>
  The rows of the screen lie in pairwise different blocks, none of which holds a row of
  the pad: what \<^verbatim>\<open>PDC_makelines\<close> gives, which allocates every row by itself.
\<close>

fun blk :: "rowptr \<Rightarrow> nat option" where
  "blk NullRow = None"
| "blk (RowPtr b off) = Some b"

definition separate :: "rowptr list \<Rightarrow> rowptr list \<Rightarrow> bool" where
  "separate D P \<longleftrightarrow> distinct (map blk D) \<and> set (map blk D) \<inter> set (map blk P) = {}"

text \<open>
  A window whose tables are in order: \<open>_maxy\<close> rows and as many damage entries, each row
  \<open>_maxx\<close> cells inside an allocated block, sizes that are values of \<^verbatim>\<open>int\<close>. This is
  what \<^verbatim>\<open>PDC_makenew\<close> with \<^verbatim>\<open>PDC_makelines\<close>, and \<^verbatim>\<open>subpad\<close> inside a parent, set
  up. \<open>row_in m width p\<close>: the \<open>width\<close> cells from \<open>p\<close> on lie in one block of \<open>m\<close>.
\<close>

fun row_in :: "cellstore \<Rightarrow> int \<Rightarrow> rowptr \<Rightarrow> bool" where
  "row_in m width NullRow = False"
| "row_in m width (RowPtr b off) =
     (case m b of None \<Rightarrow> False | Some cells \<Rightarrow> 0 \<le> off \<and> off + width \<le> int (length cells))"

definition window_ok :: "cellstore \<Rightarrow> WINDOW \<Rightarrow> bool" where
  "window_ok m win \<longleftrightarrow>
     0 \<le> w_maxy win \<and> w_maxy win \<le> INT_MAX \<and> 0 \<le> w_maxx win \<and> w_maxx win \<le> INT_MAX \<and>
     int (length (w_y win)) = w_maxy win \<and> int (length (w_firstch win)) = w_maxy win \<and>
     int (length (w_lastch win)) = w_maxy win \<and> list_all (row_in m (w_maxx win)) (w_y win)"

text \<open>
  What the loop of \<^verbatim>\<open>pnoutrefresh\<close> needs of its state to copy \<open>dwidth\<close> cells into any
  screen row from \<open>swidth\<close> cells of any pad row; every iteration keeps it.
\<close>

definition loop_ready :: "int \<Rightarrow> int \<Rightarrow> cellstore \<times> WINDOW \<times> WINDOW \<Rightarrow> bool" where
  "loop_ready dwidth swidth s \<longleftrightarrow>
     (case s of (m, cur, w) \<Rightarrow>
        length (w_firstch cur) = length (w_y cur) \<and> length (w_lastch cur) = length (w_y cur) \<and>
        int (length (w_y w)) = w_maxy w \<and> length (w_firstch w) = length (w_y w) \<and>
        length (w_lastch w) = length (w_y w) \<and>
        list_all (row_in m dwidth) (w_y cur) \<and> list_all (row_in m swidth) (w_y w) \<and>
        separate (w_y cur) (w_y w))"

text \<open>The validation of \<^verbatim>\<open>pnoutrefresh\<close>, as the source has it.\<close>

definition rejects :: "curses \<Rightarrow> WINDOW option \<Rightarrow> int \<Rightarrow> int \<Rightarrow> int \<Rightarrow> int \<Rightarrow> bool" where
  "rejects st wp sy1 sx1 sy2 sx2 \<longleftrightarrow>
     (case wp of
        None \<Rightarrow> True
      | Some w \<Rightarrow> w_flags w AND (PAD OR SUBPAD) = 0 \<or> LINES st \<le> sy2 \<or> COLS st \<le> sy2
          \<or> sy2 < max 0 sy1 \<or> sx2 < max 0 sx1)"

definition same_but_damage :: "WINDOW \<Rightarrow> WINDOW \<Rightarrow> bool" where
  "same_but_damage a b \<longleftrightarrow> b = a\<lparr>w_firstch := w_firstch b, w_lastch := w_lastch b\<rparr>"

text \<open>
  A screen of two lines and two columns and a pad of two lines and two columns, as
  \<^verbatim>\<open>newpad(2, 2)\<close> leaves them, for evaluating the functions on concrete inputs.
\<close>

definition ex_mem :: cellstore where
  "ex_mem = [0 \<mapsto> [1, 2], 1 \<mapsto> [3, 4], 2 \<mapsto> [5, 6], 3 \<mapsto> [7, 8]]"

definition ex_scr :: WINDOW where
  "ex_scr = \<lparr>w_cury = 0, w_curx = 0, w_maxy = 2, w_maxx = 2, w_begy = 0, w_begx = 0,
     w_flags = 0, w_attrs = 0, w_clear = False, w_leaveit = False, w_scroll = False,
     w_nodelay = False, w_use_keypad = False,
     w_y = [RowPtr 0 0, RowPtr 1 0], w_firstch = [NO_CHANGE, 1],
     w_lastch = [NO_CHANGE, 1]\<rparr>"

definition ex_pad :: WINDOW where
  "ex_pad = \<lparr>w_cury = 1, w_curx = 1, w_maxy = 2, w_maxx = 2, w_begy = - 1, w_begx = - 1,
     w_flags = PAD, w_attrs = 0, w_clear = False, w_leaveit = False, w_scroll = False,
     w_nodelay = False, w_use_keypad = False,
     w_y = [RowPtr 2 0, RowPtr 3 0], w_firstch = [0, 0],
     w_lastch = [1, 1]\<rparr>"

definition ex_st :: curses where
  "ex_st = \<lparr>LINES = 2, COLS = 2, curscr = ex_scr, mem = ex_mem,
     save_pminrow = 0, save_pmincol = 0, save_sminrow = 0, save_smincol = 0,
     save_smaxrow = 1, save_smaxcol = 1\<rparr>"

section \<open>File helpers of the shell: \<^verbatim>\<open>nshlib/nsh_fsutils.c\<close>\<close>

subsection \<open>The environment\<close>

text \<open>
  The system calls are the environment of the two helpers. A file is its contents; a
  script says what the successive calls of \<^verbatim>\<open>read\<close> do: fail with an \<^verbatim>\<open>errno\<close>, or
  deliver at most so many bytes. When the script is used up, every further \<^verbatim>\<open>read\<close>
  delivers all it is asked for, as far as the file goes, and \<^verbatim>\<open>nsh_write\<close> transfers all
  it is asked to. \<^verbatim>\<open>nsh_output\<close> appends a message to the error-reporting sink;
  \<^verbatim>\<open>nsh_write\<close> appends bytes to the output stream.
\<close>

type_synonym byte = "8 word"

datatype rd_event = RdFail int | RdShort nat

datatype wr_event = WrFail int | WrShort nat

datatype nsh_msg = CmdFailed string string int | SignalRecvd string | Text string

record nsh_env =
  e_open :: "string \<Rightarrow> int option"
  e_malloc :: "int option"
  e_file :: "byte list"
  e_reads :: "rd_event list"
  e_writes :: "wr_event list"
  CONFIG_DISABLE_SIGNALS :: bool
  IOBUFFERSIZE :: nat

text \<open>
  Constants of headers that are not among the sources: \<^verbatim>\<open>ERROR\<close> and \<^verbatim>\<open>EINTR\<close> as
  NuttX defines them, and the largest \<^verbatim>\<open>size_t\<close> of a 32-bit target, which only a call
  with \<open>buflen = 0\<close> meets.
\<close>

definition ERROR :: int where "ERROR = - 1"
definition EINTR :: int where "EINTR = 4"
definition SIZE_MAX :: nat where "SIZE_MAX = 4294967295"

text \<open>
  \<^verbatim>\<open>read(fd, buf, count)\<close>: the \<^verbatim>\<open>errno\<close> of a failed call, or the bytes delivered
  (none at the end of the file); then the rest of the script and of the file.
\<close>

fun sys_read ::
  "rd_event list \<Rightarrow> byte list \<Rightarrow> nat \<Rightarrow> (int + byte list) \<times> rd_event list \<times> byte list" where
  "sys_read [] rest count = (Inr (take count rest), [], drop count rest)"
| "sys_read (RdFail e # evs) rest count = (Inl e, evs, rest)"
| "sys_read (RdShort k # evs) rest count =
     (Inr (take (min k count) rest), evs, drop (min k count) rest)"

text \<open>
  \<^verbatim>\<open>nsh_write(vtbl, buffer, nbytes)\<close>: the \<^verbatim>\<open>errno\<close> of a failed call, or the number
  of bytes transferred, taken from the start of \<open>buffer\<close>; then the rest of the script and
  the output stream.
\<close>

fun nsh_write ::
  "wr_event list \<Rightarrow> byte list \<Rightarrow> byte list \<Rightarrow> nat \<Rightarrow> (int + nat) \<times> wr_event list \<times> byte list" where
  "nsh_write [] stream buffer nbytes = (Inr nbytes, [], stream @ take nbytes buffer)"
| "nsh_write (WrFail e # evs) stream buffer nbytes = (Inl e, evs, stream)"
| "nsh_write (WrShort k # evs) stream buffer nbytes =
     (Inr (min k nbytes), evs, stream @ take (min k nbytes) buffer)"

text \<open>Storing delivered bytes into an array at an offset; outside the array is \<open>None\<close>.\<close>

definition store :: "byte list \<Rightarrow> nat \<Rightarrow> byte list \<Rightarrow> byte list option" where
  "store buf off data =
     (if off + length data \<le> length buf
      then Some (take off buf @ data @ drop (off + length data) buf) else None)"

subsection \<open>\<^verbatim>\<open>nsh_catfile\<close>\<close>

text \<open>The message of a failed \<^verbatim>\<open>read\<close> or \<^verbatim>\<open>nsh_write\<close> in \<^verbatim>\<open>nsh_catfile\<close>.\<close>

definition cat_failure :: "bool \<Rightarrow> string \<Rightarrow> string \<Rightarrow> int \<Rightarrow> nsh_msg" where
  "cat_failure nosig cmd opname errval =
     (if \<not> nosig \<and> errval = EINTR then SignalRecvd cmd else CmdFailed cmd opname errval)"

text \<open>
  The inner \<^verbatim>\<open>while (nbyteswritten < nbytesread)\<close> loop. The state is the rest of the
  write script, the output stream, the sink and \<^verbatim>\<open>ret\<close>. Every call of \<^verbatim>\<open>nsh_write\<close>
  gets \<open>buffer\<close> and \<open>nbytesread\<close>; the \<^verbatim>\<open>break\<close> after a failed call leaves this loop
  only.
\<close>

function catfile_write ::
  "bool \<Rightarrow> string \<Rightarrow> byte list \<Rightarrow> nat
     \<Rightarrow> wr_event list \<times> byte list \<times> nsh_msg list \<times> int \<Rightarrow> nat
     \<Rightarrow> wr_event list \<times> byte list \<times> nsh_msg list \<times> int" where
  "catfile_write nosig cmd buffer nbytesread (wevs, stream, out, ret) nbyteswritten =
     (if nbyteswritten < nbytesread then
        (case nsh_write wevs stream buffer nbytesread of
           (Inl errval, wevs', stream') \<Rightarrow>
             (wevs', stream', out @ [cat_failure nosig cmd ''write'' errval], ERROR)
         | (Inr n, wevs', stream') \<Rightarrow>
             catfile_write nosig cmd buffer nbytesread (wevs', stream', out, ret)
               (nbyteswritten + n))
      else (wevs, stream, out, ret))"
  by pat_completeness auto
termination
  apply (relation "measure (\<lambda>(nosig, cmd, buffer, nbytesread, (wevs, stream, out, ret), nbyteswritten).
                   length wevs + (if nbyteswritten < nbytesread then 1 else 0))")
   apply simp
  subgoal for nosig cmd buffer nbytesread wevs stream out ret nbyteswritten x1 x2 n wevs' stream'
    by (cases "(wevs, stream, buffer, nbytesread)" rule: nsh_write.cases) auto
  done

declare catfile_write.simps [simp del]

text \<open>
  The outer \<^verbatim>\<open>for (;;)\<close> loop: one \<^verbatim>\<open>read\<close> of \<^verbatim>\<open>IOBUFFERSIZE\<close> bytes into the
  start of \<open>buffer\<close>, then the inner loop. A failed \<^verbatim>\<open>read\<close> sets \<^verbatim>\<open>ret\<close> and
  leaves the loop, with \<^verbatim>\<open>EINTR\<close> as with any other \<^verbatim>\<open>errno\<close>; after a failed
  \<^verbatim>\<open>nsh_write\<close> the loop goes on with the next \<^verbatim>\<open>read\<close>.
\<close>

function catfile_loop ::
  "nat \<Rightarrow> bool \<Rightarrow> string \<Rightarrow> rd_event list \<Rightarrow> byte list \<Rightarrow> byte list
     \<Rightarrow> wr_event list \<times> byte list \<times> nsh_msg list \<times> int
     \<Rightarrow> wr_event list \<times> byte list \<times> nsh_msg list \<times> int" where
  "catfile_loop iobuffersize nosig cmd revs rest buffer (wevs, stream, out, ret) =
     (case sys_read revs rest iobuffersize of
        (Inl errval, revs', rest') \<Rightarrow>
          (wevs, stream, out @ [cat_failure nosig cmd ''read'' errval], ERROR)
      | (Inr data, revs', rest') \<Rightarrow>
          if length data > 0 then
            catfile_loop iobuffersize nosig cmd revs' rest'
              (data @ drop (length data) buffer)
              (catfile_write nosig cmd (data @ drop (length data) buffer) (length data)
                 (wevs, stream, out, ret) 0)
          else (wevs, stream, out, ret))"
  by pat_completeness auto
termination
  apply (relation "measure (\<lambda>(iobuffersize, nosig, cmd, revs, rest, buffer, s).
                   length revs + length rest)")
   apply simp
  subgoal for iobuffersize nosig cmd revs rest
    by (cases "(revs, rest, iobuffersize)" rule: sys_read.cases) auto
  done

declare catfile_loop.simps [simp del]

text \<open>
  \<^verbatim>\<open>nsh_catfile\<close>: the returned \<^verbatim>\<open>int\<close>, the output stream and the sink. What
  \<^verbatim>\<open>malloc\<close> leaves in the buffer is never read (every \<^verbatim>\<open>nsh_write\<close> gets the
  \<open>nbytesread\<close> bytes just stored); the model starts from zeros.
\<close>

definition nsh_catfile :: "nsh_env \<Rightarrow> string \<Rightarrow> string \<Rightarrow> int \<times> byte list \<times> nsh_msg list" where
  "nsh_catfile env cmd filepath =
     (case e_open env filepath of
        Some e \<Rightarrow> (ERROR, [], [CmdFailed cmd ''open'' e])
      | None \<Rightarrow>
          (case e_malloc env of
             Some e \<Rightarrow> (ERROR, [], [CmdFailed cmd ''malloc'' e])
           | None \<Rightarrow>
               (case catfile_loop (IOBUFFERSIZE env) (CONFIG_DISABLE_SIGNALS env) cmd
                       (e_reads env) (e_file env) (replicate (IOBUFFERSIZE env) 0)
                       (e_writes env, [], [], OK) of
                  (wevs, stream, out, ret) \<Rightarrow> (ret, stream, out @ [Text ''\<newline>'']))))"

subsection \<open>\<^verbatim>\<open>nsh_readfile\<close>\<close>

text \<open>
  The \<^verbatim>\<open>do ... while (buflen > 0)\<close> loop. \<open>buffer\<close> is the caller's array; \<open>None\<close> is a
  store outside it or a failed \<^verbatim>\<open>DEBUGASSERT\<close>. The result is the returned \<^verbatim>\<open>int\<close>,
  the array and the sink.
\<close>

function readfile_loop ::
  "nat \<Rightarrow> string \<Rightarrow> rd_event list \<Rightarrow> byte list \<Rightarrow> byte list \<Rightarrow> nat \<Rightarrow> nat \<Rightarrow> nat
     \<Rightarrow> nsh_msg list \<Rightarrow> (int \<times> byte list \<times> nsh_msg list) option" where
  "readfile_loop buflen cmd revs rest buffer ntotal bufptr remaining out =
     (case sys_read revs rest remaining of
        (Inl errcode, revs', rest') \<Rightarrow>
          if \<not> errcode > 0 then None
          else if errcode \<noteq> EINTR
          then Some (ERROR, buffer, out @ [CmdFailed cmd ''read'' errcode])
          else if buflen > 0
          then readfile_loop buflen cmd revs' rest' buffer ntotal bufptr remaining out
          else Some (ERROR, buffer, out)
      | (Inr data, revs', rest') \<Rightarrow>
          if length data = 0 then Some (OK, buffer, out)
          else
            (case store buffer bufptr data of
               None \<Rightarrow> None
             | Some buffer1 \<Rightarrow>
                 if \<not> length data \<le> remaining then None
                 else
                   (case upd buffer1 (int (ntotal + length data)) 0 of
                      None \<Rightarrow> None
                    | Some buffer2 \<Rightarrow>
                        if buflen > 0
                        then readfile_loop buflen cmd revs' rest' buffer2
                               (ntotal + length data) (bufptr + length data)
                               (remaining - length data) out
                        else Some (ERROR, buffer2, out))))"
  by pat_completeness auto
termination
  apply (relation "measure (\<lambda>(buflen, cmd, revs, rest, buffer, ntotal, bufptr, remaining, out).
                   length revs + min remaining (length rest))")
    apply simp
  subgoal for buflen cmd revs rest buffer ntotal bufptr remaining
    by (cases "(revs, rest, remaining)" rule: sys_read.cases) auto
  subgoal for buflen cmd revs rest buffer ntotal bufptr remaining
    by (cases "(revs, rest, remaining)" rule: sys_read.cases) (auto simp: min_def)
  done

declare readfile_loop.simps [simp del]

definition nsh_readfile ::
  "nsh_env \<Rightarrow> string \<Rightarrow> string \<Rightarrow> byte list \<Rightarrow> nat
     \<Rightarrow> (int \<times> byte list \<times> nsh_msg list) option" where
  "nsh_readfile env cmd filepath buffer buflen =
     (case e_open env filepath of
        Some e \<Rightarrow> Some (ERROR, buffer, [CmdFailed cmd ''open'' e])
      | None \<Rightarrow>
          (case upd buffer 0 0 of
             None \<Rightarrow> None
           | Some buffer1 \<Rightarrow>
               readfile_loop buflen cmd (e_reads env) (e_file env) buffer1 0 0
                 (if buflen = 0 then SIZE_MAX else buflen - 1) []))"



definition no_read_failure :: "rd_event list \<Rightarrow> bool" where
  "no_read_failure revs \<longleftrightarrow> list_all (\<lambda>ev. case ev of RdFail e \<Rightarrow> False | RdShort k \<Rightarrow> 0 < k) revs"

text \<open>
  For saying how far a run gets before a call fails. \<open>requested\<close>: the bytes that the
  short reads of a script ask for. \<open>reads_pass\<close>: every \<^verbatim>\<open>read\<close> of the script is
  interrupted or delivers at least one byte, as \<^verbatim>\<open>nsh_readfile\<close> needs to go on to the next
  \<^verbatim>\<open>read\<close>. \<open>full_writes n\<close>: every \<^verbatim>\<open>nsh_write\<close> of the script transfers \<open>n\<close> bytes or
  more, so a chunk of at most \<open>n\<close> bytes takes one call.
\<close>

fun requested :: "rd_event list \<Rightarrow> nat" where
  "requested [] = 0"
| "requested (RdFail e # evs) = requested evs"
| "requested (RdShort k # evs) = k + requested evs"

definition reads_pass :: "rd_event list \<Rightarrow> bool" where
  "reads_pass revs \<longleftrightarrow>
     list_all (\<lambda>ev. case ev of RdFail e \<Rightarrow> e = EINTR | RdShort k \<Rightarrow> 0 < k) revs"

definition full_writes :: "nat \<Rightarrow> wr_event list \<Rightarrow> bool" where
  "full_writes n wevs \<longleftrightarrow>
     list_all (\<lambda>ev. case ev of WrFail e \<Rightarrow> False | WrShort k \<Rightarrow> n \<le> k) wevs"

text \<open>A file of three bytes behind a path that opens, for concrete inputs.\<close>

definition ex_env :: nsh_env where
  "ex_env = \<lparr>e_open = (\<lambda>p. None), e_malloc = None, e_file = [97, 98, 99],
     e_reads = [], e_writes = [], CONFIG_DISABLE_SIGNALS = False, IOBUFFERSIZE = 2\<rparr>"

text \<open>The same file behind a path that does not open.\<close>

definition ex_env_noent :: nsh_env where
  "ex_env_noent = \<lparr>e_open = (\<lambda>p. Some 2), e_malloc = None, e_file = [97, 98, 99],
     e_reads = [], e_writes = [], CONFIG_DISABLE_SIGNALS = False, IOBUFFERSIZE = 2\<rparr>"

text \<open>The same file when the first \<^verbatim>\<open>read\<close> is interrupted by a signal.\<close>

definition ex_env_intr :: nsh_env where
  "ex_env_intr = \<lparr>e_open = (\<lambda>p. None), e_malloc = None, e_file = [97, 98, 99],
     e_reads = [RdFail EINTR], e_writes = [], CONFIG_DISABLE_SIGNALS = False, IOBUFFERSIZE = 2\<rparr>"

text \<open>The same file when the first \<^verbatim>\<open>nsh_write\<close> transfers one byte only.\<close>

definition ex_env_short :: nsh_env where
  "ex_env_short = \<lparr>e_open = (\<lambda>p. None), e_malloc = None, e_file = [97, 98, 99],
     e_reads = [], e_writes = [WrShort 1], CONFIG_DISABLE_SIGNALS = False, IOBUFFERSIZE = 2\<rparr>"

text \<open>A \<^verbatim>\<open>read\<close> that fails with \<^verbatim>\<open>EINTR\<close>.\<close>

definition is_interrupt :: "rd_event \<Rightarrow> bool" where
  "is_interrupt ev \<longleftrightarrow> ev = RdFail EINTR"

text \<open>
  The invariant of the loop of \<^verbatim>\<open>nsh_readfile\<close>: the first \<open>ntotal\<close> bytes of the array
  and the unread rest make up the file, the terminator is at \<open>ntotal\<close>, and the room left is
  \<open>buflen - 1 - ntotal\<close>. What it gives for the result: the array keeps its length, holds
  \<open>n\<close> bytes of the file with \<open>n < buflen\<close> and a NUL after them.
\<close>

definition readfile_inv ::
  "byte list \<Rightarrow> nat \<Rightarrow> byte list \<Rightarrow> nat \<Rightarrow> nat \<Rightarrow> nat \<Rightarrow> byte list \<Rightarrow> bool" where
  "readfile_inv file buflen buffer ntotal bufptr remaining rest \<longleftrightarrow>
     bufptr = ntotal \<and> ntotal + remaining + 1 = buflen \<and> buflen \<le> length buffer \<and>
     take ntotal buffer @ rest = file \<and> buffer ! ntotal = 0"


section \<open>Properties of the pad functions\<close>

subsection \<open>Array access and the loop of \<^verbatim>\<open>pnoutrefresh\<close>\<close>

lemma idx_Some: "idx xs i = Some v \<longleftrightarrow> 0 \<le> i \<and> i < int (length xs) \<and> v = xs ! nat i"
  by (auto simp: idx_def)

lemma upd_Some: "upd xs i v = Some ys \<longleftrightarrow> 0 \<le> i \<and> i < int (length xs) \<and> ys = xs[nat i := v]"
  by (auto simp: upd_def)

lemma ptr_add_Some: "ptr_add p k = Some q \<longleftrightarrow> (\<exists>b off. p = RowPtr b off \<and> q = RowPtr b (off + k))"
  by (cases p) auto

lemma pnout_row_E:
  assumes "pnout_row px sx1 sx2 n (m, cur, w) sline pline = Some s'"
  obtains m' db doff sb soff where
    "idx (w_y cur) sline = Some (RowPtr db doff)"
    "idx (w_y w) pline = Some (RowPtr sb soff)"
    "memcpy m (RowPtr db (doff + sx1)) (RowPtr sb (soff + px)) n = Some m'"
    "0 \<le> sline" "sline < int (length (w_firstch cur))" "sline < int (length (w_lastch cur))"
    "0 \<le> pline" "pline < int (length (w_firstch w))" "pline < int (length (w_lastch w))"
    "s' = (m', cur\<lparr>w_firstch := (w_firstch cur)[nat sline := new_first sx1 (w_firstch cur ! nat sline)],
                   w_lastch := (w_lastch cur)[nat sline := max sx2 (w_lastch cur ! nat sline)]\<rparr>,
               w\<lparr>w_firstch := (w_firstch w)[nat pline := NO_CHANGE],
                 w_lastch := (w_lastch w)[nat pline := NO_CHANGE]\<rparr>)"
proof -
  from assms obtain drow dst srow src m' f fc l lc wf wl where
    h: "idx (w_y cur) sline = Some drow" "ptr_add drow sx1 = Some dst"
       "idx (w_y w) pline = Some srow" "ptr_add srow px = Some src"
       "memcpy m dst src n = Some m'"
       "idx (w_firstch cur) sline = Some f"
       "(if f = NO_CHANGE \<or> f > sx1 then upd (w_firstch cur) sline sx1 else Some (w_firstch cur)) = Some fc"
       "idx (w_lastch cur) sline = Some l"
       "(if sx2 > l then upd (w_lastch cur) sline sx2 else Some (w_lastch cur)) = Some lc"
       "upd (w_firstch w) pline NO_CHANGE = Some wf"
       "upd (w_lastch w) pline NO_CHANGE = Some wl"
       "s' = (m', cur\<lparr>w_firstch := fc, w_lastch := lc\<rparr>, w\<lparr>w_firstch := wf, w_lastch := wl\<rparr>)"
    unfolding pnout_row_def by (simp split: Option.bind_splits)
  from h(1,2) obtain db doff where d: "drow = RowPtr db doff" "dst = RowPtr db (doff + sx1)"
    by (auto simp: ptr_add_Some)
  from h(3,4) obtain sb soff where s: "srow = RowPtr sb soff" "src = RowPtr sb (soff + px)"
    by (auto simp: ptr_add_Some)
  from h(6) have f: "0 \<le> sline" "sline < int (length (w_firstch cur))" "f = w_firstch cur ! nat sline"
    by (simp_all add: idx_Some)
  from h(8) have l: "sline < int (length (w_lastch cur))" "l = w_lastch cur ! nat sline"
    by (simp_all add: idx_Some)
  from h(7) f have fc: "fc = (w_firstch cur)[nat sline := new_first sx1 (w_firstch cur ! nat sline)]"
    by (auto simp: upd_Some new_first_def split: if_splits)
  from h(9) f l have lc: "lc = (w_lastch cur)[nat sline := max sx2 (w_lastch cur ! nat sline)]"
    by (auto simp: upd_Some max_def split: if_splits)
  from h(10,11) have w: "0 \<le> pline" "pline < int (length (w_firstch w))" "pline < int (length (w_lastch w))"
     "wf = (w_firstch w)[nat pline := NO_CHANGE]" "wl = (w_lastch w)[nat pline := NO_CHANGE]"
    by (simp_all add: upd_Some)
  show thesis
    using that[OF h(1)[unfolded d] h(3)[unfolded s] h(5)[unfolded d s] f(1,2) l(1) w(1,2,3)]
      h(12) fc lc w(4,5) by simp
qed

lemma pnout_loop_cases:
  assumes "pnout_loop px sx1 sy2 sx2 n s sline pline = Some s'"
  obtains (stop) "sy2 < sline" "s' = s"
  | (skip) "sline \<le> sy2" "w_maxy (snd (snd s)) \<le> pline"
      "in_int (sline + 1) \<and> in_int (pline + 1)"
      "pnout_loop px sx1 sy2 sx2 n s (sline + 1) (pline + 1) = Some s'"
  | (row) s1 where "sline \<le> sy2" "pline < w_maxy (snd (snd s))"
      "pnout_row px sx1 sx2 n s sline pline = Some s1"
      "in_int (sline + 1) \<and> in_int (pline + 1)"
      "pnout_loop px sx1 sy2 sx2 n s1 (sline + 1) (pline + 1) = Some s'"
proof -
  note eq = assms[unfolded pnout_loop.simps[of px sx1 sy2 sx2 n s sline pline]]
  show thesis
  proof (cases "sline \<le> sy2")
    case False
    with eq have "s' = s" by simp
    with False stop show ?thesis by simp
  next
    case True
    show ?thesis
    proof (cases "pline < w_maxy (snd (snd s))")
      case False
      with True eq have "in_int (sline + 1) \<and> in_int (pline + 1)"
        "pnout_loop px sx1 sy2 sx2 n s (sline + 1) (pline + 1) = Some s'"
        by (simp_all split: if_splits)
      with True False skip show ?thesis by simp
    next
      case lt: True
      with True eq obtain s1 where "pnout_row px sx1 sx2 n s sline pline = Some s1"
        "in_int (sline + 1) \<and> in_int (pline + 1)"
        "pnout_loop px sx1 sy2 sx2 n s1 (sline + 1) (pline + 1) = Some s'"
        by (simp split: option.splits if_splits)
      with True lt row show ?thesis by blast
    qed
  qed
qed

lemma same_but_damage_refl: "same_but_damage a a"
  by (simp add: same_but_damage_def)

lemma same_but_damage_upd: "same_but_damage a (a\<lparr>w_firstch := f, w_lastch := l\<rparr>)"
  by (simp add: same_but_damage_def)

lemma same_but_damage_trans:
  "same_but_damage a b \<Longrightarrow> same_but_damage b c \<Longrightarrow> same_but_damage a c"
  unfolding same_but_damage_def
  by (cases a, cases b, cases c) simp

lemma same_but_damage_fields:
  assumes "same_but_damage a b"
  shows "w_y b = w_y a" "w_maxy b = w_maxy a" "w_maxx b = w_maxx a" "w_cury b = w_cury a"
    "w_curx b = w_curx a" "w_leaveit b = w_leaveit a" "w_clear b = w_clear a"
    "w_flags b = w_flags a"
  using assms unfolding same_but_damage_def by (cases a, cases b, simp)+

lemma pnout_loop_shape:
  "pnout_loop px sx1 sy2 sx2 n s sline pline = Some s' \<Longrightarrow>
     same_but_damage (fst (snd s)) (fst (snd s')) \<and> same_but_damage (snd (snd s)) (snd (snd s'))"
proof (induction px sx1 sy2 sx2 n s sline pline rule: pnout_loop.induct)
  case (1 px sx1 sy2 sx2 n s sline pline)
  from "1.prems" show ?case
  proof (cases rule: pnout_loop_cases)
    case stop
    then show ?thesis by (simp add: same_but_damage_refl)
  next
    case skip
    with "1.IH"(2) show ?thesis by simp
  next
    case (row s1)
    note ih = "1.IH"(1)[OF row]
    obtain m c w where s: "s = (m, c, w)" by (cases s) auto
    from row(3)[unfolded s] have "same_but_damage c (fst (snd s1)) \<and> same_but_damage w (snd (snd s1))"
      by (elim pnout_row_E) (simp add: same_but_damage_upd)
    with ih show ?thesis unfolding s by (auto intro: same_but_damage_trans)
  qed
qed

lemma pnout_loop_lengths:
  "pnout_loop px sx1 sy2 sx2 n s sline pline = Some s' \<Longrightarrow>
   length (w_firstch (fst (snd s'))) = length (w_firstch (fst (snd s))) \<and>
   length (w_lastch (fst (snd s'))) = length (w_lastch (fst (snd s))) \<and>
   length (w_firstch (snd (snd s'))) = length (w_firstch (snd (snd s))) \<and>
   length (w_lastch (snd (snd s'))) = length (w_lastch (snd (snd s)))"
proof (induction px sx1 sy2 sx2 n s sline pline rule: pnout_loop.induct)
  case (1 px sx1 sy2 sx2 n s sline pline)
  from "1.prems" show ?case
  proof (cases rule: pnout_loop_cases)
    case stop
    then show ?thesis by simp
  next
    case skip
    with "1.IH"(2) show ?thesis by simp
  next
    case (row s1)
    note ih = "1.IH"(1)[OF row]
    obtain m c w where s: "s = (m, c, w)" by (cases s) auto
    from row(3)[unfolded s] have
      "length (w_firstch (fst (snd s1))) = length (w_firstch c) \<and>
       length (w_lastch (fst (snd s1))) = length (w_lastch c) \<and>
       length (w_firstch (snd (snd s1))) = length (w_firstch w) \<and>
       length (w_lastch (snd (snd s1))) = length (w_lastch w)"
      by (elim pnout_row_E) simp
    with ih show ?thesis unfolding s by simp
  qed
qed

lemma pnout_loop_screen_damage:
  "pnout_loop px sx1 sy2 sx2 n s sline pline = Some s' \<Longrightarrow> 0 \<le> i \<Longrightarrow>
   w_firstch (fst (snd s')) ! nat i =
     (if paired sy2 (w_maxy (snd (snd s))) sline pline i
      then new_first sx1 (w_firstch (fst (snd s)) ! nat i)
      else w_firstch (fst (snd s)) ! nat i) \<and>
   w_lastch (fst (snd s')) ! nat i =
     (if paired sy2 (w_maxy (snd (snd s))) sline pline i
      then max sx2 (w_lastch (fst (snd s)) ! nat i)
      else w_lastch (fst (snd s)) ! nat i)"
proof (induction px sx1 sy2 sx2 n s sline pline rule: pnout_loop.induct)
  case (1 px sx1 sy2 sx2 n s sline pline)
  from "1.prems"(1) show ?case
  proof (cases rule: pnout_loop_cases)
    case stop
    then show ?thesis by (simp add: paired_def)
  next
    case skip
    have t: "paired sy2 (w_maxy (snd (snd s))) sline pline i = False"
      "paired sy2 (w_maxy (snd (snd s))) (sline + 1) (pline + 1) i = False"
      using skip(2) by (auto simp: paired_def)
    from "1.IH"(2)[OF skip(1) _ skip(3) skip(4) "1.prems"(2)] skip(2) show ?thesis
      unfolding t by simp
  next
    case (row s1)
    note ih = "1.IH"(1)[OF row "1.prems"(2)]
    obtain m c w where s: "s = (m, c, w)" by (cases s) auto
    from row(3)[unfolded s] have s1:
      "w_maxy (snd (snd s1)) = w_maxy w" "0 \<le> sline"
      "sline < int (length (w_firstch c))" "sline < int (length (w_lastch c))"
      "w_firstch (fst (snd s1)) = (w_firstch c)[nat sline := new_first sx1 (w_firstch c ! nat sline)]"
      "w_lastch (fst (snd s1)) = (w_lastch c)[nat sline := max sx2 (w_lastch c ! nat sline)]"
      by (elim pnout_row_E; simp)+
    show ?thesis
    proof (cases "i = sline")
      case True
      have t: "paired sy2 (w_maxy w) sline pline sline"
        "\<not> paired sy2 (w_maxy w) (sline + 1) (pline + 1) sline"
        using row(1,2) s by (auto simp: paired_def)
      from ih s1 True show ?thesis unfolding s by (simp add: t)
    next
      case False
      have t: "paired sy2 (w_maxy w) (sline + 1) (pline + 1) i = paired sy2 (w_maxy w) sline pline i"
        using False by (auto simp: paired_def)
      from False s1(2) "1.prems"(2) have ne: "nat sline \<noteq> nat i" by simp
      from ih s1 ne show ?thesis unfolding s by (simp add: t)
    qed
  qed
qed

lemma pnout_loop_pad_damage:
  "pnout_loop px sx1 sy2 sx2 n s sline pline = Some s' \<Longrightarrow> 0 \<le> i \<Longrightarrow>
   w_firstch (snd (snd s')) ! nat i =
     (if pline \<le> i \<and> i \<le> pline + (sy2 - sline) \<and> i < w_maxy (snd (snd s))
      then NO_CHANGE else w_firstch (snd (snd s)) ! nat i) \<and>
   w_lastch (snd (snd s')) ! nat i =
     (if pline \<le> i \<and> i \<le> pline + (sy2 - sline) \<and> i < w_maxy (snd (snd s))
      then NO_CHANGE else w_lastch (snd (snd s)) ! nat i)"
proof (induction px sx1 sy2 sx2 n s sline pline rule: pnout_loop.induct)
  case (1 px sx1 sy2 sx2 n s sline pline)
  from "1.prems"(1) show ?case
  proof (cases rule: pnout_loop_cases)
    case stop
    then show ?thesis by simp
  next
    case skip
    from "1.IH"(2)[OF skip(1) _ skip(3) skip(4) "1.prems"(2)] skip(2) show ?thesis
      by simp
  next
    case (row s1)
    note ih = "1.IH"(1)[OF row "1.prems"(2)]
    obtain m c w where s: "s = (m, c, w)" by (cases s) auto
    from row(3)[unfolded s] have s1:
      "w_maxy (snd (snd s1)) = w_maxy w" "0 \<le> pline"
      "pline < int (length (w_firstch w))" "pline < int (length (w_lastch w))"
      "w_firstch (snd (snd s1)) = (w_firstch w)[nat pline := NO_CHANGE]"
      "w_lastch (snd (snd s1)) = (w_lastch w)[nat pline := NO_CHANGE]"
      by (elim pnout_row_E; simp)+
    show ?thesis
    proof (cases "i = pline")
      case True
      from ih s1 True row(1,2) show ?thesis unfolding s by simp
    next
      case False
      from False s1(2) "1.prems"(2) have ne: "nat pline \<noteq> nat i" by simp
      from ih s1 ne False show ?thesis unfolding s by auto
    qed
  qed
qed

lemma clamp_max: "(if x < 0 then 0 else x) = max 0 (x::int)"
  by simp

lemma pnoutrefresh_rejects:
  "rejects st wp sy1 sx1 sy2 sx2 \<Longrightarrow> pnoutrefresh st wp py px sy1 sx1 sy2 sx2 = Some (ERR, st, wp)"
  unfolding rejects_def pnoutrefresh_def Let_def clamp_max
  by (cases wp) auto

lemma pnout_cursor_Some:
  assumes "pnout_cursor w cur py px sy1 sx1 sy2 sx2 = Some cur3"
  shows "cur3 = (if \<not> w_leaveit w \<and> w_cury w \<ge> py \<and> w_curx w \<ge> px
                     \<and> w_cury w \<le> py + (sy2 - sy1) \<and> w_curx w \<le> px + (sx2 - sx1)
                  then cur\<lparr>w_cury := (w_cury w - py) + sy1, w_curx := (w_curx w - px) + sx1\<rparr>
                  else cur)"
  using assms unfolding pnout_cursor_def by (auto split: if_splits)

lemma pnoutrefresh_accepts:
  assumes "\<not> rejects st (Some w) sy1 sx1 sy2 sx2"
  shows "pnoutrefresh st (Some w) py px sy1 sx1 sy2 sx2 =
     (if in_int (sx2 - max 0 sx1) \<and> in_int (sx2 - max 0 sx1 + 1)
         \<and> in_int (w_maxx w - max 0 px)
      then
        case pnout_loop (max 0 px) (max 0 sx1) sy2 sx2
               (min (sx2 - max 0 sx1 + 1) (w_maxx w - max 0 px)) (mem st, curscr st, w) sy1 py of
          None \<Rightarrow> None
        | Some (m1, cur1, w1) \<Rightarrow>
            (case pnout_cursor (w1\<lparr>w_clear := False\<rparr>) (cur1\<lparr>w_clear := w_clear w1 \<or> w_clear cur1\<rparr>)
                    (max 0 py) (max 0 px) (max 0 sy1) (max 0 sx1) sy2 sx2 of
               None \<Rightarrow> None
             | Some cur3 \<Rightarrow> Some (OK, st\<lparr>curscr := cur3, mem := m1\<rparr>, Some (w1\<lparr>w_clear := False\<rparr>)))
      else None)"
proof -
  from assms have a: "w_flags w AND (PAD OR SUBPAD) \<noteq> 0" "\<not> LINES st \<le> sy2" "\<not> COLS st \<le> sy2"
    "\<not> sy2 < max 0 sy1" "\<not> sx2 < max 0 sx1"
    by (simp_all add: rejects_def)
  let ?l = "pnout_loop (max 0 px) (max 0 sx1) sy2 sx2
             (min (sx2 - max 0 sx1 + 1) (w_maxx w - max 0 px)) (mem st, curscr st, w) sy1 py"
  let ?iv = "in_int (sx2 - max 0 sx1) \<and> in_int (sx2 - max 0 sx1 + 1)
         \<and> in_int (w_maxx w - max 0 px)"
  have eq: "pnoutrefresh st (Some w) py px sy1 sx1 sy2 sx2 =
     (if ?iv then
        case ?l of None \<Rightarrow> None
        | Some (m1, cur1, w1) \<Rightarrow>
                    let (w2, cur2) =
                          (if w_clear w1
                           then (w1\<lparr>w_clear := False\<rparr>, cur1\<lparr>w_clear := True\<rparr>)
                           else (w1, cur1))
                    in
                      case pnout_cursor w2 cur2 (max 0 py) (max 0 px) (max 0 sy1) (max 0 sx1) sy2 sx2 of
                        None \<Rightarrow> None
                      | Some cur3 \<Rightarrow> Some (OK, st\<lparr>curscr := cur3, mem := m1\<rparr>, Some w2)
      else None)"
    unfolding pnoutrefresh_def clamp_max using a by (simp add: Let_def)
  show ?thesis
  proof (cases ?iv)
    case False
    then show ?thesis unfolding eq by (simp only: if_False)
  next
    case nov: True
    show ?thesis
    proof (cases ?l)
      case None
      with nov show ?thesis unfolding eq by simp
    next
      case (Some t)
      obtain m1 cur1 w1 where t: "t = (m1, cur1, w1)" by (cases t) auto
      show ?thesis
      proof (cases "w_clear w1")
        case True
        with nov show ?thesis unfolding eq Some t by (simp add: Let_def)
      next
        case False
        then have e: "w1\<lparr>w_clear := False\<rparr> = w1" "cur1\<lparr>w_clear := w_clear cur1\<rparr> = cur1"
          by simp_all
        from False nov show ?thesis unfolding eq Some t
          by (simp add: Let_def, simp only: e(1))
      qed
    qed
  qed
qed

lemma memcpy_E:
  assumes "memcpy m (RowPtr db a) (RowPtr sb b) n = Some m'"
  obtains dc sc where "m db = Some dc" "m sb = Some sc" "0 \<le> n" "0 \<le> b"
    "b + n \<le> int (length sc)" "0 \<le> a" "a + n \<le> int (length dc)"
    "db \<noteq> sb \<or> n = 0 \<or> b + n \<le> a \<or> a + n \<le> b"
    "m' = m(db \<mapsto> take (nat a) dc @ take (nat n) (drop (nat b) sc) @ drop (nat (a + n)) dc)"
  using assms by (auto split: option.splits if_splits)

lemma nth_splice:
  assumes "A + N \<le> length dc" "B + N \<le> length sc" "K < length dc"
  shows "(take A dc @ take N (drop B sc) @ drop (A + N) dc) ! K =
     (if A \<le> K \<and> K < A + N then sc ! (B + (K - A)) else dc ! K)"
proof -
  let ?xs = "take A dc" and ?ys = "take N (drop B sc)" and ?zs = "drop (A + N) dc"
  have lx: "length ?xs = A" and ly: "length ?ys = N" using assms by auto
  consider "K < A" | "A \<le> K" "K < A + N" | "A + N \<le> K" by linarith
  then show ?thesis
  proof cases
    case 1
    then show ?thesis using lx by (simp add: nth_append)
  next
    case 2
    then have d: "K - A < N" "\<not> K < A" by linarith+
    then have "(?xs @ ?ys @ ?zs) ! K = ?ys ! (K - A)"
      using lx ly by (simp add: nth_append)
    also have "\<dots> = sc ! (B + (K - A))" using d assms by simp
    finally show ?thesis using 2 by simp
  next
    case 3
    then have e: "\<not> K < A" "\<not> K - A < N" by linarith+
    then have "(?xs @ ?ys @ ?zs) ! K = ?zs ! (K - A - N)"
      using lx ly by (simp add: nth_append)
    also have "\<dots> = dc ! (A + N + (K - A - N))" using 3 assms by simp
    also have "A + N + (K - A - N) = K" using 3 by simp
    finally show ?thesis using 3 by simp
  qed
qed

lemma length_splice:
  assumes "A + N \<le> length dc" "B + N \<le> length sc"
  shows "length (take A dc @ take N (drop B sc) @ drop (A + N) dc) = length dc"
  using assms by auto

lemma idx_splice:
  assumes "0 \<le> n" "0 \<le> b" "b + n \<le> int (length sc)" "0 \<le> a" "a + n \<le> int (length dc)"
  shows "idx (take (nat a) dc @ take (nat n) (drop (nat b) sc) @ drop (nat (a + n)) dc) k =
     (if a \<le> k \<and> k < a + n then idx sc (b + (k - a)) else idx dc k)"
proof -
  have n: "nat (a + n) = nat a + nat n" using assms by (simp add: nat_add_distrib)
  have A: "nat a + nat n \<le> length dc" and B: "nat b + nat n \<le> length sc"
    using assms by linarith+
  note len = length_splice[OF A B]
  show ?thesis
  proof (cases "0 \<le> k \<and> k < int (length dc)")
    case False
    with assms len show ?thesis unfolding n by (auto simp: idx_def)
  next
    case True
    then have K: "nat k < length dc" by linarith
    have c: "(nat a \<le> nat k \<and> nat k < nat a + nat n) = (a \<le> k \<and> k < a + n)"
      using True assms by auto
    have i: "a \<le> k \<Longrightarrow> nat b + (nat k - nat a) = nat (b + (k - a))"
      using assms by simp
    from True assms have r: "a \<le> k \<Longrightarrow> k < a + n \<Longrightarrow> 0 \<le> b + (k - a) \<and> b + (k - a) < int (length sc)"
      by simp
    show ?thesis
      unfolding n idx_def len using nth_splice[OF A B K] True c i r by auto
  qed
qed

lemma idx_SomeD:
  assumes "idx xs i = Some v"
  shows "0 \<le> i" "nat i < length xs" "xs ! nat i = v"
proof -
  from assms have a: "0 \<le> i" "i < int (length xs)" "xs ! nat i = v"
    by (simp_all add: idx_Some)
  from a(1,2) show "nat i < length xs" by linarith
  from a show "0 \<le> i" "xs ! nat i = v" by simp_all
qed

lemma idx_mem_blk:
  assumes "idx D i = Some (RowPtr b off)"
  shows "Some b \<in> set (map blk D)"
proof -
  from idx_SomeD[OF assms] have "nat i < length D" "D ! nat i = RowPtr b off"
    by simp_all
  then have "RowPtr b off \<in> set D" by (metis nth_mem)
  then have "blk (RowPtr b off) \<in> blk ` set D" by (rule imageI)
  then show ?thesis by simp
qed

lemma separate_rows:
  assumes "separate D P" "idx D i = Some (RowPtr b off)" "idx D j = Some (RowPtr b' off')" "i \<noteq> j"
  shows "b \<noteq> b'"
proof
  assume e: "b = b'"
  from idx_SomeD[OF assms(2)] idx_SomeD[OF assms(3)]
  have r: "0 \<le> i" "nat i < length D" "D ! nat i = RowPtr b off"
    "0 \<le> j" "nat j < length D" "D ! nat j = RowPtr b' off'"
    by simp_all
  from r have li: "nat i < length (map blk D)" and lj: "nat j < length (map blk D)" by simp_all
  from r e have eq: "map blk D ! nat i = map blk D ! nat j" by simp
  from assms(1) have "distinct (map blk D)" by (simp add: separate_def)
  from nth_eq_iff_index_eq[OF this li lj] eq have "nat i = nat j" by simp
  with r assms(4) show False by simp
qed

lemma separate_pad:
  assumes "separate D P" "idx D i = Some (RowPtr b off)" "idx P j = Some (RowPtr b' off')"
  shows "b \<noteq> b'"
proof
  assume e: "b = b'"
  from idx_mem_blk[OF assms(2)] idx_mem_blk[OF assms(3)] e assms(1)
  show False by (auto simp: separate_def)
qed

lemma pnout_row_cells:
  assumes row: "pnout_row px sx1 sx2 n (m, cur, w) sline pline = Some s'"
    and sep: "separate (w_y cur) (w_y w)"
  shows "cell (fst s') (fst (snd s')) r c =
           (if r = sline \<and> sx1 \<le> c \<and> c < sx1 + n then cell m w pline (px + (c - sx1))
            else cell m cur r c)"
    and "cell (fst s') (snd (snd s')) r c = cell m w r c"
    and "sx1 \<le> c \<Longrightarrow> c < sx1 + n \<Longrightarrow> cell m w pline (px + (c - sx1)) \<noteq> None"
proof -
  from row obtain m' db doff sb soff where
    d: "idx (w_y cur) sline = Some (RowPtr db doff)" and
    s: "idx (w_y w) pline = Some (RowPtr sb soff)" and
    mc: "memcpy m (RowPtr db (doff + sx1)) (RowPtr sb (soff + px)) n = Some m'" and
    f: "fst s' = m'" "w_y (fst (snd s')) = w_y cur" "w_y (snd (snd s')) = w_y w"
    by (elim pnout_row_E) simp
  from mc obtain dc sc where
    mm: "m db = Some dc" "m sb = Some sc" and
    rg: "0 \<le> n" "0 \<le> soff + px" "soff + px + n \<le> int (length sc)"
        "0 \<le> doff + sx1" "doff + sx1 + n \<le> int (length dc)" and
    m': "m' = m(db \<mapsto> take (nat (doff + sx1)) dc @ take (nat n) (drop (nat (soff + px)) sc)
                        @ drop (nat (doff + sx1 + n)) dc)"
    by (elim memcpy_E)
  note sp = idx_splice[OF rg]
  from separate_pad[OF sep d s] have ne: "db \<noteq> sb" .
  have src: "cell m w pline k = idx sc (soff + k)" for k
    by (simp add: cell_def s mm)
  show "cell (fst s') (fst (snd s')) r c =
           (if r = sline \<and> sx1 \<le> c \<and> c < sx1 + n then cell m w pline (px + (c - sx1))
            else cell m cur r c)"
  proof (cases "r = sline")
    case True
    have "cell m' (fst (snd s')) sline c =
       (if doff + sx1 \<le> doff + c \<and> doff + c < doff + sx1 + n
        then idx sc (soff + px + (doff + c - (doff + sx1))) else idx dc (doff + c))"
      unfolding cell_def f d m' by (simp add: sp)
    moreover have "cell m cur sline c = idx dc (doff + c)"
      by (simp add: cell_def d mm)
    moreover have "soff + px + (doff + c - (doff + sx1)) = soff + (px + (c - sx1))" by simp
    ultimately have "cell m' (fst (snd s')) sline c =
       (if sx1 \<le> c \<and> c < sx1 + n then cell m w pline (px + (c - sx1)) else cell m cur sline c)"
      unfolding src by (simp add: add.assoc)
    then show ?thesis using True f(1) by simp
  next
    case False
    have "cell m' (fst (snd s')) r c = cell m cur r c"
    proof (cases "idx (w_y cur) r")
      case None
      then show ?thesis by (simp add: cell_def f)
    next
      case (Some p)
      show ?thesis
      proof (cases p)
        case NullRow
        with Some show ?thesis by (simp add: cell_def f)
      next
        case (RowPtr b off)
        from separate_rows[OF sep d Some[unfolded RowPtr]] False have "db \<noteq> b" by simp
        with Some RowPtr show ?thesis by (simp add: cell_def f m')
      qed
    qed
    with False f(1) show ?thesis by simp
  qed
  show "cell (fst s') (snd (snd s')) r c = cell m w r c"
  proof (cases "idx (w_y w) r")
    case None
    then show ?thesis by (simp add: cell_def f)
  next
    case (Some p)
    show ?thesis
    proof (cases p)
      case NullRow
      with Some show ?thesis by (simp add: cell_def f)
    next
      case (RowPtr b off)
      from separate_pad[OF sep d Some[unfolded RowPtr]] have "db \<noteq> b" .
      with Some RowPtr show ?thesis by (simp add: cell_def f m')
    qed
  qed
  show "sx1 \<le> c \<Longrightarrow> c < sx1 + n \<Longrightarrow> cell m w pline (px + (c - sx1)) \<noteq> None"
    using rg by (simp add: src idx_def)
qed

lemma pnout_loop_cells:
  "pnout_loop px sx1 sy2 sx2 n s sline pline = Some s' \<Longrightarrow>
   separate (w_y (fst (snd s))) (w_y (snd (snd s))) \<Longrightarrow>
   cell (fst s') (fst (snd s')) r c =
     (if paired sy2 (w_maxy (snd (snd s))) sline pline r \<and> sx1 \<le> c \<and> c < sx1 + n
      then cell (fst s) (snd (snd s)) (pline + (r - sline)) (px + (c - sx1))
      else cell (fst s) (fst (snd s)) r c) \<and>
   cell (fst s') (snd (snd s')) r c = cell (fst s) (snd (snd s)) r c \<and>
   (paired sy2 (w_maxy (snd (snd s))) sline pline r \<and> sx1 \<le> c \<and> c < sx1 + n \<longrightarrow>
      cell (fst s) (snd (snd s)) (pline + (r - sline)) (px + (c - sx1)) \<noteq> None)"
proof (induction px sx1 sy2 sx2 n s sline pline rule: pnout_loop.induct)
  case (1 px sx1 sy2 sx2 n s sline pline)
  from "1.prems"(1) show ?case
  proof (cases rule: pnout_loop_cases)
    case stop
    then have "\<not> paired sy2 (w_maxy (snd (snd s))) sline pline r"
      by (auto simp: paired_def)
    with stop show ?thesis by simp
  next
    case skip
    have t: "paired sy2 (w_maxy (snd (snd s))) sline pline r = False"
      "paired sy2 (w_maxy (snd (snd s))) (sline + 1) (pline + 1) r = False"
      using skip(2) by (auto simp: paired_def)
    from "1.IH"(2)[OF skip(1) _ skip(3) skip(4) "1.prems"(2)] skip(2) show ?thesis
      unfolding t by simp
  next
    case (row s1)
    obtain m cur w where s: "s = (m, cur, w)" by (cases s) auto
    note rw = row(3)[unfolded s]
    from "1.prems"(2) have sep: "separate (w_y cur) (w_y w)" by (simp add: s)
    from rw have f: "w_y (fst (snd s1)) = w_y cur" "w_y (snd (snd s1)) = w_y w"
      "w_maxy (snd (snd s1)) = w_maxy w"
      by (elim pnout_row_E; simp)+
    from sep f have sep1: "separate (w_y (fst (snd s1))) (w_y (snd (snd s1)))" by simp
    note ih = "1.IH"(1)[OF row sep1, unfolded f]
    note c1 = pnout_row_cells(1)[OF rw sep]
    note c2 = pnout_row_cells(2)[OF rw sep]
    note c3 = pnout_row_cells(3)[OF rw sep]
    show ?thesis
    proof (cases "r = sline")
      case True
      have t: "paired sy2 (w_maxy w) sline pline r"
        "\<not> paired sy2 (w_maxy w) (sline + 1) (pline + 1) r"
        using True row(1,2) s by (auto simp: paired_def)
      from ih t True c1[of r c] c2[of r c] c3[of c] show ?thesis
        unfolding s by simp
    next
      case False
      have t: "paired sy2 (w_maxy w) (sline + 1) (pline + 1) r = paired sy2 (w_maxy w) sline pline r"
        using False by (auto simp: paired_def)
      have e: "pline + 1 + (r - (sline + 1)) = pline + (r - sline)" by simp
      from ih False c1[of r c] c2[of r c] c2[of "pline + (r - sline)" "px + (c - sx1)"]
      show ?thesis unfolding s t e by simp
    qed
  qed
qed

lemma pnout_loop_first_row:
  assumes "pnout_loop px sx1 sy2 sx2 n s sline pline = Some s'"
    "sline \<le> sy2" "pline < w_maxy (snd (snd s))"
  shows "0 \<le> sline \<and> 0 \<le> pline"
  using assms(1)
proof (cases rule: pnout_loop_cases)
  case stop
  with assms show ?thesis by simp
next
  case skip
  with assms show ?thesis by simp
next
  case (row s1)
  obtain m cur w where s: "s = (m, cur, w)" by (cases s) auto
  from row(3)[unfolded s] show ?thesis by (elim pnout_row_E) simp
qed

lemma paired_clamped:
  assumes "pnout_loop px sx1 sy2 sx2 n s sy1 py = Some s'" "max 0 sy1 \<le> sy2"
  shows "paired sy2 (w_maxy (snd (snd s))) sy1 py r =
         paired sy2 (w_maxy (snd (snd s))) (max 0 sy1) (max 0 py) r"
    and "paired sy2 (w_maxy (snd (snd s))) sy1 py r \<Longrightarrow>
         py + (r - sy1) = max 0 py + (r - max 0 sy1)"
proof -
  let ?maxy = "w_maxy (snd (snd s))"
  have n: "0 \<le> sy1 \<and> 0 \<le> py" if "py < ?maxy"
    using pnout_loop_first_row[OF assms(1) _ that] assms(2) by simp
  have a: "0 \<le> sy1 \<and> 0 \<le> py" if "paired sy2 ?maxy sy1 py r"
    using that n by (auto simp: paired_def)
  have b: "0 \<le> sy1 \<and> 0 \<le> py" if "paired sy2 ?maxy (max 0 sy1) (max 0 py) r"
    using that n by (auto simp: paired_def)
  show "paired sy2 ?maxy sy1 py r = paired sy2 ?maxy (max 0 sy1) (max 0 py) r"
  proof (cases "0 \<le> sy1 \<and> 0 \<le> py")
    case True
    then have "max 0 sy1 = sy1" "max 0 py = py" by simp_all
    then show ?thesis by simp
  next
    case False
    with a b show ?thesis by blast
  qed
  show "py + (r - sy1) = max 0 py + (r - max 0 sy1)" if "paired sy2 ?maxy sy1 py r"
  proof -
    from a[OF that] have "max 0 sy1 = sy1" "max 0 py = py" by simp_all
    then show ?thesis by simp
  qed
qed

lemma pnoutrefresh_OK_E:
  assumes "pnoutrefresh st (Some w) py px sy1 sx1 sy2 sx2 = Some (OK, st', wp')"
  obtains m1 cur1 w1 where
    "\<not> rejects st (Some w) sy1 sx1 sy2 sx2"
    "pnout_loop (max 0 px) (max 0 sx1) sy2 sx2
        (min (sx2 - max 0 sx1 + 1) (w_maxx w - max 0 px)) (mem st, curscr st, w) sy1 py
      = Some (m1, cur1, w1)"
    "mem st' = m1"
    "curscr st' = (if \<not> w_leaveit w1 \<and> w_cury w1 \<ge> max 0 py \<and> w_curx w1 \<ge> max 0 px
                     \<and> w_cury w1 \<le> max 0 py + (sy2 - max 0 sy1)
                     \<and> w_curx w1 \<le> max 0 px + (sx2 - max 0 sx1)
                  then (cur1\<lparr>w_clear := w_clear w1 \<or> w_clear cur1\<rparr>)
                         \<lparr>w_cury := (w_cury w1 - max 0 py) + max 0 sy1,
                          w_curx := (w_curx w1 - max 0 px) + max 0 sx1\<rparr>
                  else cur1\<lparr>w_clear := w_clear w1 \<or> w_clear cur1\<rparr>)"
    "wp' = Some (w1\<lparr>w_clear := False\<rparr>)"
    "LINES st' = LINES st" "COLS st' = COLS st"
    "save_pminrow st' = save_pminrow st" "save_pmincol st' = save_pmincol st"
    "save_sminrow st' = save_sminrow st" "save_smincol st' = save_smincol st"
    "save_smaxrow st' = save_smaxrow st" "save_smaxcol st' = save_smaxcol st"
proof -
  have nr: "\<not> rejects st (Some w) sy1 sx1 sy2 sx2"
  proof
    assume "rejects st (Some w) sy1 sx1 sy2 sx2"
    from pnoutrefresh_rejects[OF this, of py px] assms show False
      by (simp add: OK_def ERR_def)
  qed
  note eq0 = assms[unfolded pnoutrefresh_accepts[OF nr]]
  let ?iv = "in_int (sx2 - max 0 sx1) \<and> in_int (sx2 - max 0 sx1 + 1)
         \<and> in_int (w_maxx w - max 0 px)"
  from eq0 have nov: "?iv" by (cases ?iv) simp_all
  let ?l = "pnout_loop (max 0 px) (max 0 sx1) sy2 sx2
        (min (sx2 - max 0 sx1 + 1) (w_maxx w - max 0 px)) (mem st, curscr st, w) sy1 py"
  from eq0 nov have eq: "(case ?l of None \<Rightarrow> None
        | Some (m1, cur1, w1) \<Rightarrow>
            (case pnout_cursor (w1\<lparr>w_clear := False\<rparr>) (cur1\<lparr>w_clear := w_clear w1 \<or> w_clear cur1\<rparr>)
                    (max 0 py) (max 0 px) (max 0 sy1) (max 0 sx1) sy2 sx2 of
               None \<Rightarrow> None
             | Some cur3 \<Rightarrow> Some (OK, st\<lparr>curscr := cur3, mem := m1\<rparr>, Some (w1\<lparr>w_clear := False\<rparr>))))
       = Some (OK, st', wp')"
    by simp
  from eq have "?l \<noteq> None" by (cases ?l) simp_all
  then obtain t where "?l = Some t" by blast
  moreover obtain m1 cur1 w1 where "t = (m1, cur1, w1)" by (cases t) auto
  ultimately have l: "?l = Some (m1, cur1, w1)" by simp
  let ?c = "pnout_cursor (w1\<lparr>w_clear := False\<rparr>) (cur1\<lparr>w_clear := w_clear w1 \<or> w_clear cur1\<rparr>)
                    (max 0 py) (max 0 px) (max 0 sy1) (max 0 sx1) sy2 sx2"
  from eq[unfolded l] obtain cur3 where c: "?c = Some cur3"
    by (cases ?c) simp_all
  from eq[unfolded l] c have r: "st' = st\<lparr>curscr := cur3, mem := m1\<rparr>"
    and w': "wp' = Some (w1\<lparr>w_clear := False\<rparr>)"
    by simp_all
  from pnout_cursor_Some[OF c] have c3: "cur3 =
                 (if \<not> w_leaveit w1 \<and> w_cury w1 \<ge> max 0 py \<and> w_curx w1 \<ge> max 0 px
                     \<and> w_cury w1 \<le> max 0 py + (sy2 - max 0 sy1)
                     \<and> w_curx w1 \<le> max 0 px + (sx2 - max 0 sx1)
                  then (cur1\<lparr>w_clear := w_clear w1 \<or> w_clear cur1\<rparr>)
                         \<lparr>w_cury := (w_cury w1 - max 0 py) + max 0 sy1,
                          w_curx := (w_curx w1 - max 0 px) + max 0 sx1\<rparr>
                  else cur1\<lparr>w_clear := w_clear w1 \<or> w_clear cur1\<rparr>)"
    by simp
  have cs: "curscr st' = cur3" by (simp add: r)
  show thesis
    by (rule that[OF nr l _ cs[unfolded c3] w']) (simp_all add: r)
qed

lemma pnout_loop_in_range:
  "pnout_loop px sx1 sy2 sx2 n s sline pline = Some s' \<Longrightarrow>
   paired sy2 (w_maxy (snd (snd s))) sline pline r \<Longrightarrow>
   0 \<le> r \<and> r < int (length (w_firstch (fst (snd s)))) \<and> r < int (length (w_lastch (fst (snd s)))) \<and>
   0 \<le> pline + (r - sline) \<and> pline + (r - sline) < int (length (w_firstch (snd (snd s)))) \<and>
   pline + (r - sline) < int (length (w_lastch (snd (snd s))))"
proof (induction px sx1 sy2 sx2 n s sline pline rule: pnout_loop.induct)
  case (1 px sx1 sy2 sx2 n s sline pline)
  from "1.prems"(1) show ?case
  proof (cases rule: pnout_loop_cases)
    case stop
    with "1.prems"(2) show ?thesis by (simp add: paired_def)
  next
    case skip
    with "1.prems"(2) show ?thesis by (simp add: paired_def)
  next
    case (row s1)
    obtain m cur w where s: "s = (m, cur, w)" by (cases s) auto
    from row(3)[unfolded s] have f:
      "w_maxy (snd (snd s1)) = w_maxy w"
      "length (w_firstch (fst (snd s1))) = length (w_firstch cur)"
      "length (w_lastch (fst (snd s1))) = length (w_lastch cur)"
      "length (w_firstch (snd (snd s1))) = length (w_firstch w)"
      "length (w_lastch (snd (snd s1))) = length (w_lastch w)"
      "0 \<le> sline" "sline < int (length (w_firstch cur))" "sline < int (length (w_lastch cur))"
      "0 \<le> pline" "pline < int (length (w_firstch w))" "pline < int (length (w_lastch w))"
      by (elim pnout_row_E; simp)+
    show ?thesis
    proof (cases "r = sline")
      case True
      with f show ?thesis unfolding s by simp
    next
      case False
      with "1.prems"(2) have t: "paired sy2 (w_maxy (snd (snd s1))) (sline + 1) (pline + 1) r"
        unfolding s f by (auto simp: paired_def)
      have e: "pline + 1 + (r - (sline + 1)) = pline + (r - sline)" by simp
      from "1.IH"(1)[OF row t] show ?thesis unfolding s f e by simp
    qed
  qed
qed

lemma row_in_E:
  assumes "row_in m width p"
  obtains b off cells where "p = RowPtr b off" "m b = Some cells" "0 \<le> off"
    "off + width \<le> int (length cells)"
  using assms by (cases p) (auto split: option.splits)

lemma row_in_mono: "row_in m width p \<Longrightarrow> width' \<le> width \<Longrightarrow> row_in m width' p"
  by (cases p) (auto split: option.splits)

lemma row_in_store:
  assumes "m b = Some cells" "length cells' = length cells"
  shows "row_in (m(b \<mapsto> cells')) width = row_in m width"
proof
  fix p
  show "row_in (m(b \<mapsto> cells')) width p = row_in m width p"
    using assms by (cases p) (auto split: option.splits)
qed

lemma list_all_nth_int:
  assumes "list_all P xs" "0 \<le> i" "i < int (length xs)"
  shows "idx xs i = Some (xs ! nat i)" "P (xs ! nat i)"
proof -
  from assms(2,3) have "nat i < length xs" by linarith
  with assms(1) show "P (xs ! nat i)" by (simp add: list_all_length)
  from assms(2,3) show "idx xs i = Some (xs ! nat i)" by (simp add: idx_def)
qed

lemma pnout_row_succeeds:
  assumes r: "loop_ready (sx1 + n) (px + n) (m, cur, w)"
    and n: "0 \<le> n" "0 \<le> sx1" "0 \<le> px"
    and s: "0 \<le> sline" "sline < int (length (w_y cur))"
    and p: "0 \<le> pline" "pline < w_maxy w"
  shows "\<exists>m' cur' w'. pnout_row px sx1 sx2 n (m, cur, w) sline pline = Some (m', cur', w') \<and>
     loop_ready (sx1 + n) (px + n) (m', cur', w') \<and> length (w_y cur') = length (w_y cur) \<and>
     w_maxy w' = w_maxy w"
proof -
  from r have len: "length (w_firstch cur) = length (w_y cur)" "length (w_lastch cur) = length (w_y cur)"
    "int (length (w_y w)) = w_maxy w" "length (w_firstch w) = length (w_y w)"
    "length (w_lastch w) = length (w_y w)"
    and ad: "list_all (row_in m (sx1 + n)) (w_y cur)" and as: "list_all (row_in m (px + n)) (w_y w)"
    and sep: "separate (w_y cur) (w_y w)"
    by (simp_all add: loop_ready_def)
  from p len have p': "pline < int (length (w_y w))" by simp
  note d = list_all_nth_int[OF ad s]
  note sr = list_all_nth_int[OF as p(1) p']
  from d(2) obtain db doff dc where dr: "w_y cur ! nat sline = RowPtr db doff" "m db = Some dc"
    "0 \<le> doff" "doff + (sx1 + n) \<le> int (length dc)"
    by (rule row_in_E)
  from sr(2) obtain sb soff sc where srw: "w_y w ! nat pline = RowPtr sb soff" "m sb = Some sc"
    "0 \<le> soff" "soff + (px + n) \<le> int (length sc)"
    by (rule row_in_E)
  note di = d(1)[unfolded dr(1)] and si = sr(1)[unfolded srw(1)]
  from separate_pad[OF sep di si] have ne: "db \<noteq> sb" .
  let ?new = "take (nat (doff + sx1)) dc @ take (nat n) (drop (nat (soff + px)) sc)
                @ drop (nat (doff + sx1 + n)) dc"
  let ?m' = "m(db \<mapsto> ?new)"
  have mc: "memcpy m (RowPtr db (doff + sx1)) (RowPtr sb (soff + px)) n = Some ?m'"
    using dr srw n ne by simp
  have ln: "length ?new = length dc"
  proof -
    have "nat (doff + sx1 + n) = nat (doff + sx1) + nat n" using dr n by (simp add: nat_add_distrib)
    moreover have "nat (doff + sx1) + nat n \<le> length dc" using dr n by linarith
    moreover have "nat (soff + px) + nat n \<le> length sc" using srw n by linarith
    ultimately show ?thesis using length_splice[of "nat (doff + sx1)" "nat n" dc "nat (soff + px)" sc]
      by simp
  qed
  let ?cur' = "cur\<lparr>w_firstch := (if w_firstch cur ! nat sline = NO_CHANGE \<or> w_firstch cur ! nat sline > sx1
                                  then (w_firstch cur)[nat sline := sx1] else w_firstch cur),
                    w_lastch := (if sx2 > w_lastch cur ! nat sline
                                 then (w_lastch cur)[nat sline := sx2] else w_lastch cur)\<rparr>"
  let ?w' = "w\<lparr>w_firstch := (w_firstch w)[nat pline := NO_CHANGE],
                w_lastch := (w_lastch w)[nat pline := NO_CHANGE]\<rparr>"
  have sl: "sline < int (length (w_firstch cur))" "sline < int (length (w_lastch cur))"
    "pline < int (length (w_firstch w))" "pline < int (length (w_lastch w))"
    using s p' len by simp_all
  have "pnout_row px sx1 sx2 n (m, cur, w) sline pline = Some (?m', ?cur', ?w')"
    unfolding pnout_row_def using di si mc s(1) p(1) sl
    by (simp add: idx_def upd_def)
  moreover have "loop_ready (sx1 + n) (px + n) (?m', ?cur', ?w')"
    unfolding loop_ready_def using len ad as sep
    by (simp add: row_in_store[where m = m and b = db and cells = dc, OF dr(2) ln])
  ultimately show ?thesis by simp
qed

lemma pnout_loop_succeeds:
  "loop_ready (sx1 + n) (px + n) s \<Longrightarrow> 0 \<le> n \<Longrightarrow> 0 \<le> sx1 \<Longrightarrow> 0 \<le> px \<Longrightarrow>
   0 \<le> sline \<Longrightarrow> 0 \<le> pline \<Longrightarrow> sy2 < int (length (w_y (fst (snd s)))) \<Longrightarrow> sy2 < INT_MAX \<Longrightarrow>
   pline + (sy2 - sline) < INT_MAX \<Longrightarrow>
     \<exists>s'. pnout_loop px sx1 sy2 sx2 n s sline pline = Some s'"
proof (induction px sx1 sy2 sx2 n s sline pline rule: pnout_loop.induct)
  case (1 px sx1 sy2 sx2 n s sline pline)
  note sim = pnout_loop.simps[of px sx1 sy2 sx2 n s sline pline]
  show ?case
  proof (cases "sline \<le> sy2")
    case False
    then show ?thesis by (intro exI[of _ s]) (simp add: sim)
  next
    case True
    from True "1.prems"(5,6,8,9) have o: "in_int (sline + 1) \<and> in_int (pline + 1)"
      by (simp add: in_int_def INT_MIN_def INT_MAX_def)
    have b: "pline + 1 + (sy2 - (sline + 1)) < INT_MAX" using "1.prems"(9) by simp
    show ?thesis
    proof (cases "pline < w_maxy (snd (snd s))")
      case False
      from "1.IH"(2)[OF True False o "1.prems"(1-4) _ _ "1.prems"(7,8) b] "1.prems"(5,6)
      obtain s' where "pnout_loop px sx1 sy2 sx2 n s (sline + 1) (pline + 1) = Some s'"
        by auto
      with True False o show ?thesis by (simp add: sim del: split_paired_Ex)
    next
      case lt: True
      obtain m cur w where s: "s = (m, cur, w)" by (cases s) auto
      from True "1.prems"(7) have sl: "sline < int (length (w_y cur))" by (simp add: s)
      from pnout_row_succeeds[OF "1.prems"(1)[unfolded s] "1.prems"(2-4) "1.prems"(5) sl
          "1.prems"(6) lt[unfolded s, simplified], of sx2]
      obtain m' cur' w' where
        rw: "pnout_row px sx1 sx2 n s sline pline = Some (m', cur', w')" and
        rd: "loop_ready (sx1 + n) (px + n) (m', cur', w')" and
        le: "length (w_y cur') = length (w_y cur)"
        unfolding s by blast
      from "1.prems"(7) le have l': "sy2 < int (length (w_y (fst (snd (m', cur', w')))))"
        by (simp add: s)
      from "1.IH"(1)[OF True lt rw o rd "1.prems"(2-4) _ _ l' "1.prems"(8) b] "1.prems"(5,6)
      obtain s' where "pnout_loop px sx1 sy2 sx2 n (m', cur', w') (sline + 1) (pline + 1) = Some s'"
        by auto
      with True lt o rw show ?thesis by (simp add: sim del: split_paired_Ex)
    qed
  qed
qed

lemma pnout_cursor_succeeds:
  assumes "0 \<le> py" "0 \<le> px" "0 \<le> sy1" "sy1 \<le> sy2" "0 \<le> sx1" "sx1 \<le> sx2"
    "sy2 \<le> INT_MAX" "sx2 \<le> INT_MAX" "py + (sy2 - sy1) \<le> INT_MAX" "px + (sx2 - sx1) \<le> INT_MAX"
  shows "\<exists>c. pnout_cursor w cur py px sy1 sx1 sy2 sx2 = Some c"
  using assms unfolding pnout_cursor_def in_int_def INT_MIN_def INT_MAX_def
  by auto

lemma list_all_row_in_mono:
  assumes "list_all (row_in m width) xs" "width' \<le> width"
  shows "list_all (row_in m width') xs"
  using assms by (auto simp: list_all_iff intro: row_in_mono)

lemma pnoutrefresh_succeeds:
  assumes sc: "window_ok (mem st) (curscr st)" "w_maxy (curscr st) = LINES st"
      "w_maxx (curscr st) = COLS st"
    and pd: "window_ok (mem st) w"
    and sep: "separate (w_y (curscr st)) (w_y w)"
    and nr: "\<not> rejects st (Some w) sy1 sx1 sy2 sx2"
    and co: "0 \<le> py" "0 \<le> sy1" "sx2 < COLS st" "max 0 px \<le> w_maxx w"
    and ov: "py + (sy2 - sy1) < INT_MAX" "max 0 px + (sx2 - max 0 sx1) \<le> INT_MAX"
  shows "\<exists>st' w'. pnoutrefresh st (Some w) py px sy1 sx1 sy2 sx2 = Some (OK, st', Some w')"
proof -
  let ?px = "max 0 px" and ?sx1 = "max 0 sx1"
  let ?n = "min (sx2 - ?sx1 + 1) (w_maxx w - ?px)"
  let ?cur = "curscr st"
  from nr have "\<not> LINES st \<le> sy2" "\<not> sy2 < max 0 sy1" "\<not> sx2 < ?sx1"
    by (simp_all add: rejects_def)
  then have a: "sy2 < LINES st" "max 0 sy1 \<le> sy2" "?sx1 \<le> sx2"
    by linarith+
  from sc have cw: "LINES st \<le> INT_MAX" "COLS st \<le> INT_MAX"
    "int (length (w_y ?cur)) = LINES st" "int (length (w_firstch ?cur)) = LINES st"
    "int (length (w_lastch ?cur)) = LINES st" "list_all (row_in (mem st) (COLS st)) (w_y ?cur)"
    by (simp_all add: window_ok_def)
  from pd have pw: "w_maxx w \<le> INT_MAX"
    "int (length (w_y w)) = w_maxy w" "int (length (w_firstch w)) = w_maxy w"
    "int (length (w_lastch w)) = w_maxy w" "list_all (row_in (mem st) (w_maxx w)) (w_y w)"
    by (simp_all add: window_ok_def)
  have o: "in_int (sx2 - ?sx1)" "in_int (sx2 - ?sx1 + 1)" "in_int (w_maxx w - ?px)"
    using a co cw(1,2) pw(1) unfolding in_int_def INT_MIN_def INT_MAX_def by linarith+
  have n0: "0 \<le> ?n" using a co by linarith
  have dw: "?sx1 + ?n \<le> COLS st" using co by linarith
  have sw: "?px + ?n \<le> w_maxx w" by linarith
  have le: "length (w_firstch ?cur) = length (w_y ?cur)" "length (w_lastch ?cur) = length (w_y ?cur)"
    "length (w_firstch w) = length (w_y w)" "length (w_lastch w) = length (w_y w)"
    using cw pw by linarith+
  have rd: "loop_ready (?sx1 + ?n) (?px + ?n) (mem st, ?cur, w)"
    unfolding loop_ready_def
    using le pw(2) sep list_all_row_in_mono[OF cw(6) dw] list_all_row_in_mono[OF pw(5) sw]
    by simp
  have l: "sy2 < int (length (w_y (fst (snd (mem st, ?cur, w)))))" using a cw by simp
  have m: "sy2 < INT_MAX" using a cw by linarith
  from pnout_loop_succeeds[OF rd n0 _ _ co(2,1) l m ov(1), of sx2]
  obtain s' where "pnout_loop ?px ?sx1 sy2 sx2 ?n (mem st, ?cur, w) sy1 py = Some s'"
    by auto
  moreover obtain m1 cur1 w1 where "s' = (m1, cur1, w1)" by (cases s') auto
  ultimately have lp: "pnout_loop ?px ?sx1 sy2 sx2 ?n (mem st, ?cur, w) sy1 py = Some (m1, cur1, w1)"
    by simp
  have e: "max 0 py = py" "max 0 sy1 = sy1" using co by simp_all
  have "sx2 \<le> INT_MAX" "sy2 \<le> INT_MAX" "py + (sy2 - sy1) \<le> INT_MAX"
    using co cw m ov by linarith+
  from pnout_cursor_succeeds[OF co(1) _ co(2) a(2)[unfolded e] _ a(3) this(2,1,3) ov(2),
      of "w1\<lparr>w_clear := False\<rparr>" "cur1\<lparr>w_clear := w_clear w1 \<or> w_clear cur1\<rparr>"]
  obtain c where c: "pnout_cursor (w1\<lparr>w_clear := False\<rparr>) (cur1\<lparr>w_clear := w_clear w1 \<or> w_clear cur1\<rparr>)
       (max 0 py) ?px (max 0 sy1) ?sx1 sy2 sx2 = Some c"
    unfolding e by auto
  show ?thesis
    unfolding pnoutrefresh_accepts[OF nr] using o lp c by simp
qed

subsection \<open>Overflow\<close>

text \<open>
  Calls in which the source computes an \<^verbatim>\<open>int\<close> beyond \<open>INT_MAX\<close>, none of which has
  a defined result: \<open>sx2 - sx1 + 1\<close> with \<open>sx2 = INT_MAX\<close>; \<^verbatim>\<open>pline++\<close> from
  \<open>py = INT_MAX\<close>; \<open>px + (sx2 - sx1)\<close> in the cursor test, on a pad of three columns
  with its cursor in column 2 (the call with \<open>sx2 = 1\<close> returns \<^verbatim>\<open>OK\<close>, and so does the
  call with the large \<open>sx2\<close> when \<^verbatim>\<open>_leaveit\<close> keeps the sum from being computed);
  \<open>begy + nlines\<close> in \<^verbatim>\<open>subpad\<close>.
\<close>

lemma overflow_is_undefined:
  "pnoutrefresh ex_st (Some ex_pad) 0 0 0 0 1 2147483647 = None"
  "pnoutrefresh ex_st (Some ex_pad) 2147483647 0 0 0 1 1 = None"
  "map_option fst
     (pnoutrefresh (ex_st\<lparr>mem := (mem ex_st)(2 \<mapsto> [5, 6, 9], 3 \<mapsto> [7, 8, 9])\<rparr>)
        (Some (ex_pad\<lparr>w_maxx := 3, w_curx := 2\<rparr>)) 0 2 0 0 1 1) = Some OK"
  "pnoutrefresh (ex_st\<lparr>mem := (mem ex_st)(2 \<mapsto> [5, 6, 9], 3 \<mapsto> [7, 8, 9])\<rparr>)
     (Some (ex_pad\<lparr>w_maxx := 3, w_curx := 2\<rparr>)) 0 2 0 0 1 2147483646 = None"
  "pnoutrefresh (ex_st\<lparr>mem := (mem ex_st)(2 \<mapsto> [5, 6, 9], 3 \<mapsto> [7, 8, 9])\<rparr>)
     (Some (ex_pad\<lparr>w_maxx := 3, w_curx := 2, w_leaveit := True\<rparr>)) 0 2 0 0 1 2147483646
     \<noteq> None"
  "subpad (PDC_makenew False) ex_st (Some ex_pad) 2147483647 1 1 0 = None"
  by code_simp+

subsection \<open>The cursor\<close>

text \<open>
  Claim C5. On every successful \<^verbatim>\<open>pnoutrefresh\<close>, if the pad does not have cursor
  placement suppressed (\<^verbatim>\<open>_leaveit\<close>) and its cursor \<open>(r, c)\<close> lies in
  \<open>[py, py + (sy2 - sy1)] \<times> [px, px + (sx2 - sx1)]\<close>, the screen cursor becomes
  \<open>(r - py + sy1, c - px + sx1)\<close>; otherwise the screen cursor is left as it was. The
  coordinates are the clamped ones (a negative \<open>py\<close>, \<open>px\<close>, \<open>sy1\<close>, \<open>sx1\<close> counts as
  zero), as in the source. The bounds are inclusive, so a cursor on the bottom edge
  \<open>py + (sy2 - sy1)\<close> moves the screen cursor and a cursor one row below does not. A
  call in which \<open>py + (sy2 - sy1)\<close> or \<open>px + (sx2 - sx1)\<close> is computed and is not a value
  of \<^verbatim>\<open>int\<close> is undefined, not successful (\<open>overflow_is_undefined\<close>).
\<close>

theorem pnoutrefresh_cursor:
  assumes "pnoutrefresh st (Some w) py px sy1 sx1 sy2 sx2 = Some (OK, st', wp')"
  shows "(w_cury (curscr st'), w_curx (curscr st')) =
     (if \<not> w_leaveit w
         \<and> max 0 py \<le> w_cury w \<and> w_cury w \<le> max 0 py + (sy2 - max 0 sy1)
         \<and> max 0 px \<le> w_curx w \<and> w_curx w \<le> max 0 px + (sx2 - max 0 sx1)
      then (w_cury w - max 0 py + max 0 sy1, w_curx w - max 0 px + max 0 sx1)
      else (w_cury (curscr st), w_curx (curscr st)))"
proof -
  from assms obtain m1 cur1 w1 where
    l: "pnout_loop (max 0 px) (max 0 sx1) sy2 sx2
        (min (sx2 - max 0 sx1 + 1) (w_maxx w - max 0 px)) (mem st, curscr st, w) sy1 py
      = Some (m1, cur1, w1)" and
    c: "curscr st' = (if \<not> w_leaveit w1 \<and> w_cury w1 \<ge> max 0 py \<and> w_curx w1 \<ge> max 0 px
                     \<and> w_cury w1 \<le> max 0 py + (sy2 - max 0 sy1)
                     \<and> w_curx w1 \<le> max 0 px + (sx2 - max 0 sx1)
                  then (cur1\<lparr>w_clear := w_clear w1 \<or> w_clear cur1\<rparr>)
                         \<lparr>w_cury := (w_cury w1 - max 0 py) + max 0 sy1,
                          w_curx := (w_curx w1 - max 0 px) + max 0 sx1\<rparr>
                  else cur1\<lparr>w_clear := w_clear w1 \<or> w_clear cur1\<rparr>)"
    by (rule pnoutrefresh_OK_E)
  from pnout_loop_shape[OF l] have sh: "same_but_damage (curscr st) cur1" "same_but_damage w w1"
    by simp_all
  note fc = same_but_damage_fields[OF sh(1)] and fw = same_but_damage_fields[OF sh(2)]
  show ?thesis unfolding c fw by (simp add: fc)
qed

theorem pnoutrefresh_cursor_witness:
  "(w_cury (curscr (fst (snd (the (pnoutrefresh ex_st (Some ex_pad) 0 0 0 0 1 1))))),
    w_curx (curscr (fst (snd (the (pnoutrefresh ex_st (Some ex_pad) 0 0 0 0 1 1)))))) = (1, 1)
   \<and> (w_cury (curscr (fst (snd (the (pnoutrefresh ex_st (Some ex_pad) 0 0 0 0 0 1))))),
      w_curx (curscr (fst (snd (the (pnoutrefresh ex_st (Some ex_pad) 0 0 0 0 0 1)))))) = (0, 0)"
proof -
  let ?X = "pnoutrefresh ex_st (Some ex_pad) 0 0 0 0 1 1"
  let ?Y = "pnoutrefresh ex_st (Some ex_pad) 0 0 0 0 0 1"
  have "fst (the ?X) = OK" "?X \<noteq> None" by code_simp+
  then have x: "?X = Some (OK, fst (snd (the ?X)), snd (snd (the ?X)))"
    by (cases ?X) auto
  have "fst (the ?Y) = OK" "?Y \<noteq> None" by code_simp+
  then have y: "?Y = Some (OK, fst (snd (the ?Y)), snd (snd (the ?Y)))"
    by (cases ?Y) auto
  from pnoutrefresh_cursor[OF x] pnoutrefresh_cursor[OF y] show ?thesis
    by (simp add: ex_pad_def ex_st_def ex_scr_def)
qed

subsection \<open>Damage ranges\<close>

lemma pnoutrefresh_OK_damage_fields:
  assumes "pnoutrefresh st (Some w) py px sy1 sx1 sy2 sx2 = Some (OK, st', wp')"
  obtains m1 cur1 w1 where
    "pnout_loop (max 0 px) (max 0 sx1) sy2 sx2
        (min (sx2 - max 0 sx1 + 1) (w_maxx w - max 0 px)) (mem st, curscr st, w) sy1 py
      = Some (m1, cur1, w1)"
    "max 0 sy1 \<le> sy2" "max 0 sx1 \<le> sx2"
    "mem st' = m1"
    "w_firstch (curscr st') = w_firstch cur1" "w_lastch (curscr st') = w_lastch cur1"
    "w_y (curscr st') = w_y (curscr st)"
    "wp' = Some (w1\<lparr>w_clear := False\<rparr>)"
proof -
  from assms obtain m1 cur1 w1 where
    nr: "\<not> rejects st (Some w) sy1 sx1 sy2 sx2" and
    l: "pnout_loop (max 0 px) (max 0 sx1) sy2 sx2
        (min (sx2 - max 0 sx1 + 1) (w_maxx w - max 0 px)) (mem st, curscr st, w) sy1 py
      = Some (m1, cur1, w1)" and
    m: "mem st' = m1" and
    c: "curscr st' = (if \<not> w_leaveit w1 \<and> w_cury w1 \<ge> max 0 py \<and> w_curx w1 \<ge> max 0 px
                     \<and> w_cury w1 \<le> max 0 py + (sy2 - max 0 sy1)
                     \<and> w_curx w1 \<le> max 0 px + (sx2 - max 0 sx1)
                  then (cur1\<lparr>w_clear := w_clear w1 \<or> w_clear cur1\<rparr>)
                         \<lparr>w_cury := (w_cury w1 - max 0 py) + max 0 sy1,
                          w_curx := (w_curx w1 - max 0 px) + max 0 sx1\<rparr>
                  else cur1\<lparr>w_clear := w_clear w1 \<or> w_clear cur1\<rparr>)" and
    w': "wp' = Some (w1\<lparr>w_clear := False\<rparr>)"
    by (rule pnoutrefresh_OK_E)
  from nr have "\<not> sy2 < max 0 sy1" "\<not> sx2 < max 0 sx1" by (simp_all add: rejects_def)
  then have b: "max 0 sy1 \<le> sy2" "max 0 sx1 \<le> sx2" by linarith+
  from pnout_loop_shape[OF l] have "same_but_damage (curscr st) cur1" by simp
  from same_but_damage_fields(1)[OF this] have y: "w_y cur1 = w_y (curscr st)" .
  have f: "w_firstch (curscr st') = w_firstch cur1" "w_lastch (curscr st') = w_lastch cur1"
    "w_y (curscr st') = w_y (curscr st)"
    unfolding c using y by simp_all
  show thesis by (rule that[OF l b m f w'])
qed

text \<open>
  Claim C4. After every successful \<^verbatim>\<open>pnoutrefresh\<close>, for each screen row \<open>r\<close> that is
  paired with a pad row inside the pad: both ends of that pad row's damage range are the
  ``no change'' sentinel; the screen row's range is the union of its range before the call
  and \<open>[sx1, sx2]\<close> (its lower end is \<open>sx1\<close> when it was ``no change'', the smaller of the
  two otherwise; its upper end is the larger of \<open>sx2\<close> and the old one). The other screen
  rows keep their ranges, and no screen row's range shrinks: the upper end never
  decreases, and the lower end never increases unless it was ``no change''. The
  coordinates are the clamped ones. A call in which \<open>sx2 - sx1 + 1\<close> or a row counter
  leaves the values of \<^verbatim>\<open>int\<close> is undefined, not successful (\<open>overflow_is_undefined\<close>).
\<close>

theorem pnoutrefresh_damage:
  assumes "pnoutrefresh st (Some w) py px sy1 sx1 sy2 sx2 = Some (OK, st', wp')"
  shows "\<exists>w'. wp' = Some w' \<and>
     length (w_firstch (curscr st')) = length (w_firstch (curscr st)) \<and>
     length (w_lastch (curscr st')) = length (w_lastch (curscr st)) \<and>
     (\<forall>r. paired sy2 (w_maxy w) (max 0 sy1) (max 0 py) r \<longrightarrow>
        0 \<le> r \<and> r < int (length (w_firstch (curscr st))) \<and>
        r < int (length (w_lastch (curscr st))) \<and>
        0 \<le> max 0 py + (r - max 0 sy1) \<and>
        max 0 py + (r - max 0 sy1) < int (length (w_firstch w')) \<and>
        max 0 py + (r - max 0 sy1) < int (length (w_lastch w')) \<and>
        w_firstch w' ! nat (max 0 py + (r - max 0 sy1)) = NO_CHANGE \<and>
        w_lastch w' ! nat (max 0 py + (r - max 0 sy1)) = NO_CHANGE \<and>
        w_firstch (curscr st') ! nat r =
          (if w_firstch (curscr st) ! nat r = NO_CHANGE then max 0 sx1
           else min (max 0 sx1) (w_firstch (curscr st) ! nat r)) \<and>
        w_lastch (curscr st') ! nat r = max sx2 (w_lastch (curscr st) ! nat r)) \<and>
     (\<forall>r. 0 \<le> r \<and> \<not> paired sy2 (w_maxy w) (max 0 sy1) (max 0 py) r \<longrightarrow>
        w_firstch (curscr st') ! nat r = w_firstch (curscr st) ! nat r \<and>
        w_lastch (curscr st') ! nat r = w_lastch (curscr st) ! nat r) \<and>
     (\<forall>r. 0 \<le> r \<longrightarrow>
        w_lastch (curscr st) ! nat r \<le> w_lastch (curscr st') ! nat r \<and>
        (w_firstch (curscr st) ! nat r \<noteq> NO_CHANGE \<longrightarrow>
           w_firstch (curscr st') ! nat r \<le> w_firstch (curscr st) ! nat r))"
proof -
  from assms obtain m1 cur1 w1 where
    l: "pnout_loop (max 0 px) (max 0 sx1) sy2 sx2
        (min (sx2 - max 0 sx1 + 1) (w_maxx w - max 0 px)) (mem st, curscr st, w) sy1 py
      = Some (m1, cur1, w1)" and
    b: "max 0 sy1 \<le> sy2" and
    f: "w_firstch (curscr st') = w_firstch cur1" "w_lastch (curscr st') = w_lastch cur1" and
    w': "wp' = Some (w1\<lparr>w_clear := False\<rparr>)"
    by (rule pnoutrefresh_OK_damage_fields)
  let ?w' = "w1\<lparr>w_clear := False\<rparr>"
  have fw: "w_firstch ?w' = w_firstch w1" "w_lastch ?w' = w_lastch w1" by simp_all
  from pnout_loop_lengths[OF l] have len:
    "length (w_firstch cur1) = length (w_firstch (curscr st))"
    "length (w_lastch cur1) = length (w_lastch (curscr st))"
    "length (w_firstch w1) = length (w_firstch w)"
    "length (w_lastch w1) = length (w_lastch w)"
    by simp_all
  have pc: "paired sy2 (w_maxy w) (max 0 sy1) (max 0 py) r = paired sy2 (w_maxy w) sy1 py r" for r
    using paired_clamped(1)[OF l b, of r] by simp
  have pe: "max 0 py + (r - max 0 sy1) = py + (r - sy1)"
    if "paired sy2 (w_maxy w) sy1 py r" for r
    using paired_clamped(2)[OF l b, of r] that by simp
  have scr: "w_firstch cur1 ! nat r =
       (if paired sy2 (w_maxy w) sy1 py r then new_first (max 0 sx1) (w_firstch (curscr st) ! nat r)
        else w_firstch (curscr st) ! nat r) \<and>
     w_lastch cur1 ! nat r =
       (if paired sy2 (w_maxy w) sy1 py r then max sx2 (w_lastch (curscr st) ! nat r)
        else w_lastch (curscr st) ! nat r)" if "0 \<le> r" for r
    using pnout_loop_screen_damage[OF l that] by simp
  have A: "0 \<le> r \<and> r < int (length (w_firstch (curscr st))) \<and>
        r < int (length (w_lastch (curscr st))) \<and>
        0 \<le> max 0 py + (r - max 0 sy1) \<and>
        max 0 py + (r - max 0 sy1) < int (length (w_firstch ?w')) \<and>
        max 0 py + (r - max 0 sy1) < int (length (w_lastch ?w')) \<and>
        w_firstch ?w' ! nat (max 0 py + (r - max 0 sy1)) = NO_CHANGE \<and>
        w_lastch ?w' ! nat (max 0 py + (r - max 0 sy1)) = NO_CHANGE \<and>
        w_firstch (curscr st') ! nat r =
          (if w_firstch (curscr st) ! nat r = NO_CHANGE then max 0 sx1
           else min (max 0 sx1) (w_firstch (curscr st) ! nat r)) \<and>
        w_lastch (curscr st') ! nat r = max sx2 (w_lastch (curscr st) ! nat r)"
    if p0: "paired sy2 (w_maxy w) (max 0 sy1) (max 0 py) r" for r
  proof -
    from p0 have p: "paired sy2 (w_maxy w) sy1 py r" by (simp add: pc)
    note e = pe[OF p]
    from pnout_loop_in_range[OF l, of r] p have rg:
      "0 \<le> r" "r < int (length (w_firstch (curscr st)))" "r < int (length (w_lastch (curscr st)))"
      "0 \<le> py + (r - sy1)" "py + (r - sy1) < int (length (w_firstch w))"
      "py + (r - sy1) < int (length (w_lastch w))"
      by simp_all
    from p have q: "py \<le> py + (r - sy1)" "py + (r - sy1) \<le> py + (sy2 - sy1)"
      "py + (r - sy1) < w_maxy w"
      by (simp_all add: paired_def)
    from pnout_loop_pad_damage[OF l rg(4)] q have pd:
      "w_firstch w1 ! nat (py + (r - sy1)) = NO_CHANGE"
      "w_lastch w1 ! nat (py + (r - sy1)) = NO_CHANGE"
      by simp_all
    from scr[OF rg(1)] p have sd:
      "w_firstch cur1 ! nat r = new_first (max 0 sx1) (w_firstch (curscr st) ! nat r)"
      "w_lastch cur1 ! nat r = max sx2 (w_lastch (curscr st) ! nat r)"
      by simp_all
    have nf: "new_first a x = (if x = NO_CHANGE then a else min a x)" for a x
      by (simp add: new_first_def min_def)
    show ?thesis
      unfolding e f fw len sd pd nf using rg by simp
  qed
  have B: "w_firstch (curscr st') ! nat r = w_firstch (curscr st) ! nat r \<and>
        w_lastch (curscr st') ! nat r = w_lastch (curscr st) ! nat r"
    if "0 \<le> r \<and> \<not> paired sy2 (w_maxy w) (max 0 sy1) (max 0 py) r" for r
    using scr[of r] that unfolding f pc by simp
  have C: "w_lastch (curscr st) ! nat r \<le> w_lastch (curscr st') ! nat r \<and>
        (w_firstch (curscr st) ! nat r \<noteq> NO_CHANGE \<longrightarrow>
           w_firstch (curscr st') ! nat r \<le> w_firstch (curscr st) ! nat r)"
    if "0 \<le> r" for r
    using scr[OF that] unfolding f by (simp add: new_first_def)
  show ?thesis
    using w' len(1,2) A B C unfolding f by blast
qed

theorem pnoutrefresh_damage_witness:
  "w_firstch (curscr (fst (snd (the (pnoutrefresh ex_st (Some ex_pad) 0 0 0 0 1 1))))) ! 0 = 0
   \<and> w_firstch (curscr (fst (snd (the (pnoutrefresh ex_st (Some ex_pad) 0 0 0 0 1 1))))) ! 1 = 0
   \<and> w_lastch (curscr (fst (snd (the (pnoutrefresh ex_st (Some ex_pad) 0 0 0 0 1 1))))) ! 1 = 1"
proof -
  let ?X = "pnoutrefresh ex_st (Some ex_pad) 0 0 0 0 1 1"
  have "fst (the ?X) = OK" "?X \<noteq> None" by code_simp+
  then have x: "?X = Some (OK, fst (snd (the ?X)), snd (snd (the ?X)))"
    by (cases ?X) auto
  from pnoutrefresh_damage[OF x] have a:
    "\<forall>r. paired 1 (w_maxy ex_pad) (max 0 0) (max 0 0) r \<longrightarrow>
        w_firstch (curscr (fst (snd (the ?X)))) ! nat r =
          (if w_firstch (curscr ex_st) ! nat r = NO_CHANGE then max 0 0
           else min (max 0 0) (w_firstch (curscr ex_st) ! nat r)) \<and>
        w_lastch (curscr (fst (snd (the ?X)))) ! nat r = max 1 (w_lastch (curscr ex_st) ! nat r)"
    by blast
  have p: "paired 1 (w_maxy ex_pad) (max 0 0) (max 0 0) 0" "paired 1 (w_maxy ex_pad) (max 0 0) (max 0 0) 1"
    by (simp_all add: paired_def ex_pad_def)
  from a[rule_format, OF p(1)] a[rule_format, OF p(2)] show ?thesis
    by (simp add: ex_st_def ex_scr_def NO_CHANGE_def)
qed

subsection \<open>The cells that are copied\<close>

lemma cell_rows: "w_y a = w_y b \<Longrightarrow> cell m a r c = cell m b r c"
  by (simp add: cell_def)

text \<open>
  Every successful \<^verbatim>\<open>pnoutrefresh\<close> as one equation for the screen cells after the call.
\<close>

lemma pnoutrefresh_copies_cells:
  assumes "pnoutrefresh st (Some w) py px sy1 sx1 sy2 sx2 = Some (OK, st', wp')"
    and "separate (w_y (curscr st)) (w_y w)"
  shows "\<exists>w'. wp' = Some w' \<and>
    (\<forall>r c. cell (mem st') (curscr st') r c =
       (if paired sy2 (w_maxy w) (max 0 sy1) (max 0 py) r \<and> max 0 sx1 \<le> c
           \<and> c < max 0 sx1 + min (sx2 - max 0 sx1 + 1) (w_maxx w - max 0 px)
        then cell (mem st) w (max 0 py + (r - max 0 sy1)) (max 0 px + (c - max 0 sx1))
        else cell (mem st) (curscr st) r c)) \<and>
    (\<forall>r c. paired sy2 (w_maxy w) (max 0 sy1) (max 0 py) r \<and> max 0 sx1 \<le> c
           \<and> c < max 0 sx1 + min (sx2 - max 0 sx1 + 1) (w_maxx w - max 0 px) \<longrightarrow>
        cell (mem st) w (max 0 py + (r - max 0 sy1)) (max 0 px + (c - max 0 sx1)) \<noteq> None) \<and>
    (\<forall>r c. \<not> (max 0 sy1 \<le> r \<and> r \<le> sy2 \<and> max 0 sx1 \<le> c \<and> c \<le> sx2) \<longrightarrow>
        cell (mem st') (curscr st') r c = cell (mem st) (curscr st) r c) \<and>
    (\<forall>r c. cell (mem st') w' r c = cell (mem st) w r c)"
proof -
  let ?n = "min (sx2 - max 0 sx1 + 1) (w_maxx w - max 0 px)"
  from assms(1) obtain m1 cur1 w1 where
    l: "pnout_loop (max 0 px) (max 0 sx1) sy2 sx2 ?n (mem st, curscr st, w) sy1 py
      = Some (m1, cur1, w1)" and
    b: "max 0 sy1 \<le> sy2" and
    m: "mem st' = m1" and
    y: "w_y (curscr st') = w_y (curscr st)" and
    w': "wp' = Some (w1\<lparr>w_clear := False\<rparr>)"
    by (rule pnoutrefresh_OK_damage_fields)
  let ?w' = "w1\<lparr>w_clear := False\<rparr>"
  from pnout_loop_shape[OF l] have sh: "same_but_damage (curscr st) cur1" "same_but_damage w w1"
    by simp_all
  have yc: "w_y (curscr st') = w_y cur1" and yw: "w_y ?w' = w_y w1"
    using y same_but_damage_fields(1)[OF sh(1)] by simp_all
  have pc: "paired sy2 (w_maxy w) (max 0 sy1) (max 0 py) r = paired sy2 (w_maxy w) sy1 py r" for r
    using paired_clamped(1)[OF l b, of r] by simp
  have pe: "max 0 py + (r - max 0 sy1) = py + (r - sy1)"
    if "paired sy2 (w_maxy w) sy1 py r" for r
    using paired_clamped(2)[OF l b, of r] that by simp
  from assms(2) have sep: "separate (w_y (fst (snd (mem st, curscr st, w))))
     (w_y (snd (snd (mem st, curscr st, w))))" by simp
  note lc = pnout_loop_cells[OF l sep]
  have c1: "cell m1 cur1 r c =
     (if paired sy2 (w_maxy w) sy1 py r \<and> max 0 sx1 \<le> c \<and> c < max 0 sx1 + ?n
      then cell (mem st) w (py + (r - sy1)) (max 0 px + (c - max 0 sx1))
      else cell (mem st) (curscr st) r c)" for r c
    using lc[of r c] by simp
  have c2: "cell m1 w1 r c = cell (mem st) w r c" for r c
    using lc[of r c] by simp
  have c3: "cell (mem st) w (py + (r - sy1)) (max 0 px + (c - max 0 sx1)) \<noteq> None"
    if "paired sy2 (w_maxy w) sy1 py r" "max 0 sx1 \<le> c" "c < max 0 sx1 + ?n" for r c
    using lc[of r c] that by simp
  have A: "cell (mem st') (curscr st') r c =
       (if paired sy2 (w_maxy w) (max 0 sy1) (max 0 py) r \<and> max 0 sx1 \<le> c \<and> c < max 0 sx1 + ?n
        then cell (mem st) w (max 0 py + (r - max 0 sy1)) (max 0 px + (c - max 0 sx1))
        else cell (mem st) (curscr st) r c)" for r c
  proof (cases "paired sy2 (w_maxy w) sy1 py r")
    case True
    show ?thesis
      unfolding m cell_rows[OF yc] pc pe[OF True] by (rule c1)
  next
    case False
    then show ?thesis
      unfolding m cell_rows[OF yc] pc c1 by simp
  qed
  have B: "cell (mem st) w (max 0 py + (r - max 0 sy1)) (max 0 px + (c - max 0 sx1)) \<noteq> None"
    if "paired sy2 (w_maxy w) (max 0 sy1) (max 0 py) r \<and> max 0 sx1 \<le> c \<and> c < max 0 sx1 + ?n"
    for r c
  proof -
    from that have p: "paired sy2 (w_maxy w) sy1 py r" by (simp add: pc)
    from c3[OF p] that show ?thesis unfolding pe[OF p] by simp
  qed
  have C: "cell (mem st') (curscr st') r c = cell (mem st) (curscr st) r c"
    if n: "\<not> (max 0 sy1 \<le> r \<and> r \<le> sy2 \<and> max 0 sx1 \<le> c \<and> c \<le> sx2)" for r c
  proof -
    have "\<not> (paired sy2 (w_maxy w) (max 0 sy1) (max 0 py) r \<and> max 0 sx1 \<le> c \<and> c < max 0 sx1 + ?n)"
      using n by (auto simp: paired_def)
    then show ?thesis by (subst A) (simp only: if_False)
  qed
  have D: "cell (mem st') ?w' r c = cell (mem st) w r c" for r c
    unfolding m cell_rows[OF yw] by (rule c2)
  from w' A B C D show ?thesis by blast
qed

text \<open>
  Claim C3. On every successful \<^verbatim>\<open>pnoutrefresh\<close>, with
  \<open>num_cols = min (sx2 - sx1 + 1) (maxx - px)\<close>: the screen cell \<open>(r, c)\<close> holds the pad cell
  \<open>(py + (r - sy1), px + (c - sx1))\<close> when row \<open>r\<close> is in \<open>[sy1, sy2]\<close>, its pad row is
  below the pad's height and \<open>sx1 \<le> c < sx1 + num_cols\<close>, and every other screen cell is
  what it was. So exactly \<open>num_cols\<close> cells are copied for each such row, each of them a
  cell the pad has; no cell outside \<open>[sy1, sy2] \<times> [sx1, sx2]\<close> changes; nothing is copied
  from beyond \<open>num_cols\<close> columns; the cells of a row whose pad row is not below the pad's
  height stay as they were. The pad's cells do not change. The coordinates are the clamped
  ones. The rows of the screen are taken to lie in blocks of their own (\<open>separate\<close>).

  Such a call does return \<^verbatim>\<open>OK\<close>, however many of its rows have no pad row: whenever
  the screen and the pad are in order (\<open>window_ok\<close>, the screen \<open>LINES\<close> by \<open>COLS\<close>),
  the validation passes, \<open>py\<close> and \<open>sy1\<close> are not negative, \<open>sx2\<close> is on the screen, \<open>px\<close>
  is not beyond the pad's width and the sums that the call computes are values of
  \<^verbatim>\<open>int\<close>. The pad's height does not occur among these conditions.
\<close>

theorem pnoutrefresh_copies:
  "(pnoutrefresh st (Some w) py px sy1 sx1 sy2 sx2 = Some (OK, st', wp')
      \<and> separate (w_y (curscr st)) (w_y w) \<longrightarrow>
    (\<exists>w'. wp' = Some w' \<and>
      (\<forall>r c. cell (mem st') (curscr st') r c =
         (if paired sy2 (w_maxy w) (max 0 sy1) (max 0 py) r \<and> max 0 sx1 \<le> c
             \<and> c < max 0 sx1 + min (sx2 - max 0 sx1 + 1) (w_maxx w - max 0 px)
          then cell (mem st) w (max 0 py + (r - max 0 sy1)) (max 0 px + (c - max 0 sx1))
          else cell (mem st) (curscr st) r c)) \<and>
      (\<forall>r c. paired sy2 (w_maxy w) (max 0 sy1) (max 0 py) r \<and> max 0 sx1 \<le> c
             \<and> c < max 0 sx1 + min (sx2 - max 0 sx1 + 1) (w_maxx w - max 0 px) \<longrightarrow>
          cell (mem st) w (max 0 py + (r - max 0 sy1)) (max 0 px + (c - max 0 sx1)) \<noteq> None) \<and>
      (\<forall>r c. \<not> (max 0 sy1 \<le> r \<and> r \<le> sy2 \<and> max 0 sx1 \<le> c \<and> c \<le> sx2) \<longrightarrow>
          cell (mem st') (curscr st') r c = cell (mem st) (curscr st) r c) \<and>
      (\<forall>r c. cell (mem st') w' r c = cell (mem st) w r c)))
   \<and> (window_ok (mem st) (curscr st) \<and> w_maxy (curscr st) = LINES st
        \<and> w_maxx (curscr st) = COLS st \<and> window_ok (mem st) w
        \<and> separate (w_y (curscr st)) (w_y w)
        \<and> \<not> rejects st (Some w) sy1 sx1 sy2 sx2
        \<and> 0 \<le> py \<and> 0 \<le> sy1 \<and> sx2 < COLS st \<and> max 0 px \<le> w_maxx w
        \<and> py + (sy2 - sy1) < INT_MAX \<and> max 0 px + (sx2 - max 0 sx1) \<le> INT_MAX \<longrightarrow>
      (\<exists>st'' w''. pnoutrefresh st (Some w) py px sy1 sx1 sy2 sx2 = Some (OK, st'', Some w'')))"
proof (intro conjI impI)
  assume "pnoutrefresh st (Some w) py px sy1 sx1 sy2 sx2 = Some (OK, st', wp')
      \<and> separate (w_y (curscr st)) (w_y w)"
  then have "pnoutrefresh st (Some w) py px sy1 sx1 sy2 sx2 = Some (OK, st', wp')"
    "separate (w_y (curscr st)) (w_y w)"
    by simp_all
  then show "\<exists>w'. wp' = Some w' \<and>
      (\<forall>r c. cell (mem st') (curscr st') r c =
         (if paired sy2 (w_maxy w) (max 0 sy1) (max 0 py) r \<and> max 0 sx1 \<le> c
             \<and> c < max 0 sx1 + min (sx2 - max 0 sx1 + 1) (w_maxx w - max 0 px)
          then cell (mem st) w (max 0 py + (r - max 0 sy1)) (max 0 px + (c - max 0 sx1))
          else cell (mem st) (curscr st) r c)) \<and>
      (\<forall>r c. paired sy2 (w_maxy w) (max 0 sy1) (max 0 py) r \<and> max 0 sx1 \<le> c
             \<and> c < max 0 sx1 + min (sx2 - max 0 sx1 + 1) (w_maxx w - max 0 px) \<longrightarrow>
          cell (mem st) w (max 0 py + (r - max 0 sy1)) (max 0 px + (c - max 0 sx1)) \<noteq> None) \<and>
      (\<forall>r c. \<not> (max 0 sy1 \<le> r \<and> r \<le> sy2 \<and> max 0 sx1 \<le> c \<and> c \<le> sx2) \<longrightarrow>
          cell (mem st') (curscr st') r c = cell (mem st) (curscr st) r c) \<and>
      (\<forall>r c. cell (mem st') w' r c = cell (mem st) w r c)"
    by (rule pnoutrefresh_copies_cells)
next
  assume h: "window_ok (mem st) (curscr st) \<and> w_maxy (curscr st) = LINES st
        \<and> w_maxx (curscr st) = COLS st \<and> window_ok (mem st) w
        \<and> separate (w_y (curscr st)) (w_y w)
        \<and> \<not> rejects st (Some w) sy1 sx1 sy2 sx2
        \<and> 0 \<le> py \<and> 0 \<le> sy1 \<and> sx2 < COLS st \<and> max 0 px \<le> w_maxx w
        \<and> py + (sy2 - sy1) < INT_MAX \<and> max 0 px + (sx2 - max 0 sx1) \<le> INT_MAX"
  show "\<exists>st'' w''. pnoutrefresh st (Some w) py px sy1 sx1 sy2 sx2 = Some (OK, st'', Some w'')"
    by (rule pnoutrefresh_succeeds) (use h in simp_all)
qed

text \<open>
  On the screen and the pad of two lines, the call with pad origin \<open>(1, 0)\<close> pairs screen
  row 0 with pad row 1 and screen row 1 with no pad row: it returns \<^verbatim>\<open>OK\<close>, screen row
  0 gets the cells of pad row 1 and screen row 1 keeps its cells.
\<close>

theorem pnoutrefresh_copies_witness:
  "map_option fst (pnoutrefresh ex_st (Some ex_pad) 1 0 0 0 1 1) = Some OK
   \<and> cell (mem (fst (snd (the (pnoutrefresh ex_st (Some ex_pad) 1 0 0 0 1 1)))))
        (curscr (fst (snd (the (pnoutrefresh ex_st (Some ex_pad) 1 0 0 0 1 1))))) 0 1 = Some 8
   \<and> cell (mem (fst (snd (the (pnoutrefresh ex_st (Some ex_pad) 1 0 0 0 1 1)))))
        (curscr (fst (snd (the (pnoutrefresh ex_st (Some ex_pad) 1 0 0 0 1 1))))) 1 1 = Some 4"
proof -
  let ?X = "pnoutrefresh ex_st (Some ex_pad) 1 0 0 0 1 1"
  have s: "separate (w_y (curscr ex_st)) (w_y ex_pad)"
    by (simp add: separate_def ex_st_def ex_scr_def ex_pad_def)
  have h: "window_ok (mem ex_st) (curscr ex_st) \<and> w_maxy (curscr ex_st) = LINES ex_st
        \<and> w_maxx (curscr ex_st) = COLS ex_st \<and> window_ok (mem ex_st) ex_pad
        \<and> separate (w_y (curscr ex_st)) (w_y ex_pad)
        \<and> \<not> rejects ex_st (Some ex_pad) 0 0 1 1
        \<and> (0::int) \<le> 1 \<and> (0::int) \<le> 0 \<and> 1 < COLS ex_st \<and> max 0 0 \<le> w_maxx ex_pad
        \<and> 1 + (1 - 0) < INT_MAX \<and> max 0 0 + (1 - max 0 0) \<le> INT_MAX"
    using s
    by (simp add: window_ok_def rejects_def ex_st_def ex_scr_def ex_pad_def ex_mem_def
        INT_MAX_def PAD_def SUBPAD_def)
  from pnoutrefresh_copies[of ex_st ex_pad 1 0 0 0 1 1] h
  obtain st' w' where x: "?X = Some (OK, st', Some w')" by blast
  from pnoutrefresh_copies[of ex_st ex_pad 1 0 0 0 1 1 st' "Some w'"] x s
  have a: "cell (mem st') (curscr st') r c =
       (if paired 1 (w_maxy ex_pad) (max 0 0) (max 0 1) r \<and> max 0 0 \<le> c
           \<and> c < max 0 0 + min (1 - max 0 0 + 1) (w_maxx ex_pad - max 0 0)
        then cell (mem ex_st) ex_pad (max 0 1 + (r - max 0 0)) (max 0 0 + (c - max 0 0))
        else cell (mem ex_st) (curscr ex_st) r c)" for r c
    by blast
  have "cell (mem st') (curscr st') 0 1 = Some 8" "cell (mem st') (curscr st') 1 1 = Some 4"
    unfolding a
    by (simp_all add: paired_def cell_def idx_def ex_st_def ex_scr_def ex_pad_def ex_mem_def)
  with x show ?thesis by simp
qed

subsection \<open>Validation\<close>

lemma pnoutrefresh_result:
  assumes "pnoutrefresh st wp py px sy1 sx1 sy2 sx2 = Some (r, st', wp')"
  shows "(r = ERR \<and> rejects st wp sy1 sx1 sy2 sx2 \<and> st' = st \<and> wp' = wp)
       \<or> (r = OK \<and> \<not> rejects st wp sy1 sx1 sy2 sx2)"
proof (cases "rejects st wp sy1 sx1 sy2 sx2")
  case True
  from pnoutrefresh_rejects[OF True, of py px] assms show ?thesis using True by simp
next
  case False
  then obtain w where w: "wp = Some w" by (cases wp) (simp_all add: rejects_def)
  let ?l = "pnout_loop (max 0 px) (max 0 sx1) sy2 sx2
             (min (sx2 - max 0 sx1 + 1) (w_maxx w - max 0 px)) (mem st, curscr st, w) sy1 py"
  from assms[unfolded w pnoutrefresh_accepts[OF False[unfolded w]]] have "r = OK"
    by (auto split: if_splits option.splits)
  with False show ?thesis by simp
qed

lemma pnoutrefresh_row_beyond_screen:
  "LINES st \<le> sy2 \<Longrightarrow> pnoutrefresh st wp py px sy1 sx1 sy2 sx2 = Some (ERR, st, wp)"
  by (rule pnoutrefresh_rejects) (simp add: rejects_def split: option.splits)

text \<open>
  Claim C1 says that \<^verbatim>\<open>pnoutrefresh\<close> fails, changing nothing, exactly when the window
  is null or not a pad, the far corner \<open>(sy2, sx2)\<close> is outside the screen, or the far
  corner precedes the clamped near corner. The source tests \<^verbatim>\<open>sy2 >= COLS\<close> where
  \<^verbatim>\<open>sx2 >= COLS\<close> is meant (\<open>rejects\<close> above is the test as written, and
  \<open>pnoutrefresh_result\<close> says the call fails exactly then). On a screen of two columns a
  call with \<open>sx2 = 2\<close> returns \<^verbatim>\<open>OK\<close> and records column 2 as the upper end of the
  damage range of both screen rows.
\<close>

theorem pnoutrefresh_far_column_unchecked:
  "COLS ex_st \<le> 2
   \<and> map_option fst (pnoutrefresh ex_st (Some ex_pad) 0 0 0 0 1 2) = Some OK
   \<and> map_option (w_lastch \<circ> curscr \<circ> fst \<circ> snd) (pnoutrefresh ex_st (Some ex_pad) 0 0 0 0 1 2)
       = Some [2, 2]"
  by code_simp

subsection \<open>Clamping\<close>

lemma pnoutrefresh_clamps_columns:
  "pnoutrefresh st wp py px sy1 sx1 sy2 sx2
     = pnoutrefresh st wp py (max 0 px) sy1 (max 0 sx1) sy2 sx2"
proof -
  have mm: "max 0 (max 0 x) = max 0 x" for x :: int by simp
  have re: "rejects st wp sy1 (max 0 sx1) sy2 sx2 = rejects st wp sy1 sx1 sy2 sx2"
    unfolding rejects_def mm ..
  show ?thesis
  proof (cases "rejects st wp sy1 sx1 sy2 sx2")
    case True
    from True re have "rejects st wp sy1 (max 0 sx1) sy2 sx2" by simp
    from pnoutrefresh_rejects[OF True] pnoutrefresh_rejects[OF this] show ?thesis by simp
  next
    case False
    then obtain w where w: "wp = Some w" by (cases wp) (simp_all add: rejects_def)
    from False re have nr: "\<not> rejects st (Some w) sy1 (max 0 sx1) sy2 sx2" by (simp add: w)
    show ?thesis
      unfolding w pnoutrefresh_accepts[OF False[unfolded w]] pnoutrefresh_accepts[OF nr] mm
      by (intro refl)
  qed
qed

text \<open>
  Claim C2 says that a call with a negative \<open>py\<close>, \<open>px\<close>, \<open>sy1\<close> or \<open>sx1\<close> does what the
  call with zero in its place does. For the columns it does
  (\<open>pnoutrefresh_clamps_columns\<close>). For the rows the source sets \<^verbatim>\<open>sline = sy1\<close> and
  \<^verbatim>\<open>pline = py\<close> before it clamps them, so the loop starts at the negative row: with
  \<open>py = -1\<close> it reads \<^verbatim>\<open>w->_y[-1]\<close>, outside the pad's row table, where the call with
  \<open>py = 0\<close> returns \<^verbatim>\<open>OK\<close>.
\<close>

theorem pnoutrefresh_negative_row_origin:
  "pnoutrefresh ex_st (Some ex_pad) (- 1) 0 0 0 1 1 = None
   \<and> map_option fst (pnoutrefresh ex_st (Some ex_pad) 0 0 0 0 1 1) = Some OK"
  by code_simp

subsection \<open>The saved region\<close>

lemma pnoutrefresh_keeps_saved:
  assumes "pnoutrefresh st wp py px sy1 sx1 sy2 sx2 = Some (r, st', wp')"
  shows "save_pminrow st' = save_pminrow st \<and> save_pmincol st' = save_pmincol st \<and>
         save_sminrow st' = save_sminrow st \<and> save_smincol st' = save_smincol st \<and>
         save_smaxrow st' = save_smaxrow st \<and> save_smaxcol st' = save_smaxcol st"
proof -
  from pnoutrefresh_result[OF assms] consider
    "st' = st" | "r = OK" "\<not> rejects st wp sy1 sx1 sy2 sx2" by blast
  then show ?thesis
  proof cases
    case 1
    then show ?thesis by simp
  next
    case 2
    then obtain w where w: "wp = Some w" by (cases wp) (simp_all add: rejects_def)
    from assms[unfolded w 2(1)] show ?thesis by (elim pnoutrefresh_OK_E) simp
  qed
qed

lemma pechochar_uses_saved:
  assumes "waddch st pad ch = Some (r, st1, pad1)" "r \<noteq> ERR"
  shows "pechochar waddch doupdate st pad ch
     = prefresh doupdate st1 pad1 (save_pminrow st1) (save_pmincol st1)
         (save_sminrow st1) (save_smincol st1) (save_smaxrow st1) (save_smaxcol st1)"
  unfolding pechochar_def assms(1) using assms(2) by simp

lemma newpad_saves_region:
  assumes "newpad makenew makelines werase st nlines ncols = Some (Some win, st')"
  shows "w_flags win = PAD \<and> save_pminrow st' = 0 \<and> save_pmincol st' = 0 \<and>
         save_sminrow st' = 0 \<and> save_smincol st' = 0 \<and>
         save_smaxrow st' = min (LINES st') nlines - 1 \<and>
         save_smaxcol st' = min (COLS st') ncols - 1"
  using assms unfolding newpad_def
  by (auto split: prod.splits option.splits if_splits)

text \<open>
  Claim C6 says that the six \<^verbatim>\<open>save_\<close> variables are written by every pad creation and
  by every explicit \<^verbatim>\<open>pnoutrefresh\<close> or \<^verbatim>\<open>prefresh\<close>, so that \<^verbatim>\<open>pechochar\<close> shows
  the viewport of the last explicit call. \<^verbatim>\<open>newpad\<close> and \<^verbatim>\<open>subpad\<close> write them
  (\<open>newpad_saves_region\<close>, \<open>subpad_saves_region\<close>) and \<^verbatim>\<open>pechochar\<close> reads them
  (\<open>pechochar_uses_saved\<close>), but \<^verbatim>\<open>pnoutrefresh\<close> never writes them
  (\<open>pnoutrefresh_keeps_saved\<close>): after the successful call with pad origin \<open>(1, 1)\<close> and
  screen rectangle \<open>(0, 0)\<close> to \<open>(0, 0)\<close> they still hold \<open>(0, 0, 0, 0, 1, 1)\<close>, the
  values \<^verbatim>\<open>newpad(2, 2)\<close> left.
\<close>

theorem pnoutrefresh_keeps_saved_region:
  "map_option fst (pnoutrefresh ex_st (Some ex_pad) 1 1 0 0 0 0) = Some OK
   \<and> map_option (save_pminrow \<circ> fst \<circ> snd) (pnoutrefresh ex_st (Some ex_pad) 1 1 0 0 0 0) = Some 0
   \<and> map_option (save_pmincol \<circ> fst \<circ> snd) (pnoutrefresh ex_st (Some ex_pad) 1 1 0 0 0 0) = Some 0
   \<and> map_option (save_sminrow \<circ> fst \<circ> snd) (pnoutrefresh ex_st (Some ex_pad) 1 1 0 0 0 0) = Some 0
   \<and> map_option (save_smincol \<circ> fst \<circ> snd) (pnoutrefresh ex_st (Some ex_pad) 1 1 0 0 0 0) = Some 0
   \<and> map_option (save_smaxrow \<circ> fst \<circ> snd) (pnoutrefresh ex_st (Some ex_pad) 1 1 0 0 0 0) = Some 1
   \<and> map_option (save_smaxcol \<circ> fst \<circ> snd) (pnoutrefresh ex_st (Some ex_pad) 1 1 0 0 0 0) = Some 1"
  by code_simp

subsection \<open>\<^verbatim>\<open>subpad\<close>\<close>



lemma subpad_of_pad:
  assumes "w_flags orig AND PAD \<noteq> 0"
  shows "subpad mk st (Some orig) nlines ncols begy begx =
     (if begy < w_begy orig \<or> begx < w_begx orig then Some (None, st)
      else if \<not> (in_int (begy + nlines) \<and> in_int (w_begy orig + w_maxy orig)) then None
      else if begy + nlines > w_begy orig + w_maxy orig then Some (None, st)
      else if \<not> (in_int (begx + ncols) \<and> in_int (w_begx orig + w_maxx orig)) then None
      else if begx + ncols > w_begx orig + w_maxx orig then Some (None, st)
      else if nlines = 0 \<and> \<not> (in_int (w_maxy orig - 1) \<and> in_int (w_maxy orig - 1 - begy))
      then None
      else if ncols = 0 \<and> \<not> (in_int (w_maxx orig - 1) \<and> in_int (w_maxx orig - 1 - begx))
      then None
      else
        case mk st (if nlines = 0 then w_maxy orig - 1 - begy else nlines)
                   (if ncols = 0 then w_maxx orig - 1 - begx else ncols) begy begx of
          (None, st1) \<Rightarrow> Some (None, st1)
        | (Some win0, st1) \<Rightarrow>
            (case subpad_loop (if nlines = 0 then w_maxy orig - 1 - begy else nlines) orig begx
                    (win0\<lparr>w_attrs := w_attrs orig, w_leaveit := w_leaveit orig,
                          w_scroll := w_scroll orig, w_nodelay := w_nodelay orig,
                          w_use_keypad := w_use_keypad orig\<rparr>) 0 begy of
               None \<Rightarrow> None
             | Some win1 \<Rightarrow>
                 if in_int (min (LINES st1)
                              (if nlines = 0 then w_maxy orig - 1 - begy else nlines) - 1)
                    \<and> in_int (min (COLS st1)
                                 (if ncols = 0 then w_maxx orig - 1 - begx else ncols) - 1)
                 then
                   Some (Some (win1\<lparr>w_flags := SUBPAD\<rparr>),
                         st1\<lparr>save_pminrow := 0, save_pmincol := 0,
                             save_sminrow := 0, save_smincol := 0,
                             save_smaxrow := min (LINES st1)
                               (if nlines = 0 then w_maxy orig - 1 - begy else nlines) - 1,
                             save_smaxcol := min (COLS st1)
                               (if ncols = 0 then w_maxx orig - 1 - begx else ncols) - 1\<rparr>)
                 else None))"
  unfolding subpad_def Let_def using assms by simp

lemma subpad_Some_E:
  assumes "subpad mk st (Some orig) nlines ncols begy begx = Some (Some win, st')"
  obtains win0 st1 win1 where
    "w_flags orig AND PAD \<noteq> 0"
    "mk st (if nlines = 0 then w_maxy orig - 1 - begy else nlines)
           (if ncols = 0 then w_maxx orig - 1 - begx else ncols) begy begx = (Some win0, st1)"
    "subpad_loop (if nlines = 0 then w_maxy orig - 1 - begy else nlines) orig begx
        (win0\<lparr>w_attrs := w_attrs orig, w_leaveit := w_leaveit orig,
              w_scroll := w_scroll orig, w_nodelay := w_nodelay orig,
              w_use_keypad := w_use_keypad orig\<rparr>) 0 begy = Some win1"
    "win = win1\<lparr>w_flags := SUBPAD\<rparr>"
    "st' = st1\<lparr>save_pminrow := 0, save_pmincol := 0, save_sminrow := 0, save_smincol := 0,
             save_smaxrow := min (LINES st1) (if nlines = 0 then w_maxy orig - 1 - begy else nlines) - 1,
             save_smaxcol := min (COLS st1) (if ncols = 0 then w_maxx orig - 1 - begx else ncols) - 1\<rparr>"
proof -
  let ?nl = "if nlines = 0 then w_maxy orig - 1 - begy else nlines"
  let ?nc = "if ncols = 0 then w_maxx orig - 1 - begx else ncols"
  let ?rest = "case mk st ?nl ?nc begy begx of
                (None, st1) \<Rightarrow> Some (None, st1)
              | (Some win0, st1) \<Rightarrow>
                  (case subpad_loop ?nl orig begx
                          (win0\<lparr>w_attrs := w_attrs orig, w_leaveit := w_leaveit orig,
                                w_scroll := w_scroll orig, w_nodelay := w_nodelay orig,
                                w_use_keypad := w_use_keypad orig\<rparr>) 0 begy of
                     None \<Rightarrow> None
                   | Some win1 \<Rightarrow>
                       if in_int (min (LINES st1) ?nl - 1) \<and> in_int (min (COLS st1) ?nc - 1)
                       then
                         Some (Some (win1\<lparr>w_flags := SUBPAD\<rparr>),
                               st1\<lparr>save_pminrow := 0, save_pmincol := 0,
                                   save_sminrow := 0, save_smincol := 0,
                                   save_smaxrow := min (LINES st1) ?nl - 1,
                                   save_smaxcol := min (COLS st1) ?nc - 1\<rparr>)
                       else None)"
  have f: "w_flags orig AND PAD \<noteq> 0"
    using assms unfolding subpad_def Let_def by (cases "w_flags orig AND PAD = 0") simp_all
  from assms[unfolded subpad_of_pad[OF f]] have eq: "?rest = Some (Some win, st')"
    by (simp only: split: if_splits) simp_all
  obtain wo st1 where m: "mk st ?nl ?nc begy begx = (wo, st1)" by (cases "mk st ?nl ?nc begy begx")
  from eq[unfolded m] obtain win0 where wo: "wo = Some win0" by (cases wo) simp_all
  let ?l = "subpad_loop ?nl orig begx
        (win0\<lparr>w_attrs := w_attrs orig, w_leaveit := w_leaveit orig,
              w_scroll := w_scroll orig, w_nodelay := w_nodelay orig,
              w_use_keypad := w_use_keypad orig\<rparr>) 0 begy"
  from eq[unfolded m wo] obtain win1 where l: "?l = Some win1" by (cases ?l) simp_all
  from eq[unfolded m wo] l have r: "win = win1\<lparr>w_flags := SUBPAD\<rparr>"
    "st' = st1\<lparr>save_pminrow := 0, save_pmincol := 0, save_sminrow := 0, save_smincol := 0,
             save_smaxrow := min (LINES st1) ?nl - 1, save_smaxcol := min (COLS st1) ?nc - 1\<rparr>"
    by (simp_all split: if_splits)
  show thesis by (rule that[OF f m[unfolded wo] l r])
qed

lemma subpad_saves_region:
  assumes "subpad makenew st (Some orig) nlines ncols begy begx = Some (Some win, st')"
  shows "save_pminrow st' = 0 \<and> save_pmincol st' = 0 \<and>
         save_sminrow st' = 0 \<and> save_smincol st' = 0 \<and>
         save_smaxrow st'
           = min (LINES st') (if nlines = 0 then w_maxy orig - 1 - begy else nlines) - 1 \<and>
         save_smaxcol st'
           = min (COLS st') (if ncols = 0 then w_maxx orig - 1 - begx else ncols) - 1"
  using assms by (elim subpad_Some_E) simp




section \<open>Properties of the file helpers\<close>

subsection \<open>The inner and the outer loop of \<^verbatim>\<open>nsh_catfile\<close>\<close>

lemma catfile_write_done:
  "\<not> nbyteswritten < nbytesread \<Longrightarrow>
     catfile_write nosig cmd buffer nbytesread s nbyteswritten = s"
  by (cases s) (simp add: catfile_write.simps)

lemma catfile_write_fail:
  "nbyteswritten < nbytesread \<Longrightarrow>
     catfile_write nosig cmd buffer nbytesread (WrFail e # wevs, stream, out, ret) nbyteswritten
       = (wevs, stream, out @ [cat_failure nosig cmd ''write'' e], ERROR)"
  by (simp add: catfile_write.simps)

lemma catfile_write_short:
  "nbyteswritten < nbytesread \<Longrightarrow>
     catfile_write nosig cmd buffer nbytesread (WrShort n # wevs, stream, out, ret) nbyteswritten
       = catfile_write nosig cmd buffer nbytesread
           (wevs, stream @ take (min n nbytesread) buffer, out, ret)
           (nbyteswritten + min n nbytesread)"
  by (simp add: catfile_write.simps[of _ _ _ _ "WrShort n # wevs"])

lemma catfile_write_full:
  "catfile_write nosig cmd buffer nbytesread ([], stream, out, ret) nbyteswritten
     = ([], if nbyteswritten < nbytesread then stream @ take nbytesread buffer else stream, out, ret)"
proof (cases "nbyteswritten < nbytesread")
  case True
  then have "catfile_write nosig cmd buffer nbytesread ([], stream, out, ret) nbyteswritten
     = catfile_write nosig cmd buffer nbytesread ([], stream @ take nbytesread buffer, out, ret)
         (nbyteswritten + nbytesread)"
    by (simp add: catfile_write.simps[of _ _ _ _ "[]" stream])
  also have "\<dots> = ([], stream @ take nbytesread buffer, out, ret)"
    by (rule catfile_write_done) simp
  finally show ?thesis using True by simp
next
  case False
  then show ?thesis by (simp add: catfile_write_done)
qed

lemma catfile_write_keeps_error:
  "snd (snd (snd s)) = ERROR \<Longrightarrow>
     snd (snd (snd (catfile_write nosig cmd buffer nbytesread s nbyteswritten))) = ERROR"
proof (induction nosig cmd buffer nbytesread s nbyteswritten rule: catfile_write.induct)
  case (1 nosig cmd buffer nbytesread wevs stream out ret nbyteswritten)
  show ?case
  proof (cases "nbyteswritten < nbytesread")
    case False
    with "1.prems" show ?thesis by (simp add: catfile_write_done)
  next
    case True
    show ?thesis
    proof (cases wevs)
      case Nil
      with "1.prems" show ?thesis by (simp add: catfile_write_full)
    next
      case (Cons ev es)
      show ?thesis
      proof (cases ev)
        case (WrFail e)
        with Cons True show ?thesis by (simp add: catfile_write_fail)
      next
        case (WrShort n)
        have w: "nsh_write wevs stream buffer nbytesread
           = (Inr (min n nbytesread), es, stream @ take (min n nbytesread) buffer)"
          by (simp add: Cons WrShort)
        from "1.prems" have "snd (snd (snd (es, stream @ take (min n nbytesread) buffer, out, ret))) = ERROR"
          by simp
        from "1.IH"[OF True w[symmetric] refl refl this]
        show ?thesis unfolding Cons WrShort catfile_write_short[OF True] by simp
      qed
    qed
  qed
qed

lemma catfile_loop_fail:
  "catfile_loop iobs nosig cmd (RdFail e # revs) rest buffer (wevs, stream, out, ret)
     = (wevs, stream, out @ [cat_failure nosig cmd ''read'' e], ERROR)"
  by (simp add: catfile_loop.simps)

lemma catfile_loop_keeps_error:
  "snd (snd (snd s)) = ERROR \<Longrightarrow>
     snd (snd (snd (catfile_loop iobs nosig cmd revs rest buffer s))) = ERROR"
proof (induction iobs nosig cmd revs rest buffer s rule: catfile_loop.induct)
  case (1 iobs nosig cmd revs rest buffer wevs stream out ret)
  obtain r revs' rest' where sr: "sys_read revs rest iobs = (r, revs', rest')"
    by (cases "sys_read revs rest iobs") auto
  show ?case
  proof (cases r)
    case (Inl e)
    with sr show ?thesis by (simp add: catfile_loop.simps[of _ _ _ revs])
  next
    case (Inr data)
    show ?thesis
    proof (cases "length data > 0")
      case False
      with sr Inr "1.prems" show ?thesis by (simp add: catfile_loop.simps[of _ _ _ revs])
    next
      case True
      let ?s1 = "catfile_write nosig cmd (data @ drop (length data) buffer) (length data)
                 (wevs, stream, out, ret) 0"
      from catfile_write_keeps_error[OF "1.prems"] have e: "snd (snd (snd ?s1)) = ERROR" .
      from "1.IH"[OF sr[symmetric] Inr refl True e]
      show ?thesis using sr Inr True by (simp add: catfile_loop.simps[of _ _ _ revs])
    qed
  qed
qed

lemma sys_read_ok:
  assumes "no_read_failure revs" "0 < count"
  obtains c revs' where "0 < c" "c \<le> count"
    "sys_read revs rest count = (Inr (take c rest), revs', drop c rest)"
    "no_read_failure revs'" "length revs' \<le> length revs"
proof (cases revs)
  case Nil
  show ?thesis
    by (rule that[of count "[]"]) (simp_all add: Nil assms no_read_failure_def)
next
  case (Cons ev revs')
  with assms(1) obtain k where ev: "ev = RdShort k" "0 < k" and n: "no_read_failure revs'"
    by (cases ev) (auto simp: no_read_failure_def)
  show ?thesis
    by (rule that[of "min k count" revs']) (simp_all add: Cons ev assms n)
qed

lemma catfile_loop_full_writes:
  "no_read_failure revs \<Longrightarrow> 0 < iobs \<Longrightarrow>
     catfile_loop iobs nosig cmd revs rest buffer ([], stream, out, ret)
       = ([], stream @ rest, out, ret)"
proof (induction "length revs + length rest" arbitrary: revs rest buffer stream rule: less_induct)
  case less
  from sys_read_ok[OF less.prems, of rest] obtain c revs' where
    c: "0 < c" and sr: "sys_read revs rest iobs = (Inr (take c rest), revs', drop c rest)" and
    n: "no_read_failure revs'" and l: "length revs' \<le> length revs"
    by blast
  show ?case
  proof (cases "rest = []")
    case True
    from sr[unfolded True] show ?thesis unfolding True
      by (simp add: catfile_loop.simps[of iobs nosig cmd revs "[]"])
  next
    case False
    let ?data = "take c rest"
    from False c have d: "0 < length ?data" by (cases rest) auto
    let ?buf = "?data @ drop (length ?data) buffer"
    have tk: "take (length xs) (xs @ ys) = xs" for xs ys :: "byte list" by simp
    have w: "catfile_write nosig cmd ?buf (length ?data) ([], stream, out, ret) 0
        = ([], stream @ ?data, out, ret)"
      unfolding catfile_write_full tk using d by (simp only: if_True)
    from False have "0 < length rest" by simp
    with c l have m: "length revs' + length (drop c rest) < length revs + length rest"
      unfolding length_drop by linarith
    have "catfile_loop iobs nosig cmd revs rest buffer ([], stream, out, ret)
        = catfile_loop iobs nosig cmd revs' (drop c rest) ?buf ([], stream @ ?data, out, ret)"
      using sr d w by (simp add: catfile_loop.simps[of iobs nosig cmd revs rest])
    also have "\<dots> = ([], (stream @ ?data) @ drop c rest, out, ret)"
      by (rule less.hyps[OF m n less.prems(2)])
    finally show ?thesis by simp
  qed
qed

lemma nsh_catfile_opened:
  assumes "e_open env fp = None" "e_malloc env = None"
    "catfile_loop (IOBUFFERSIZE env) (CONFIG_DISABLE_SIGNALS env) cmd (e_reads env) (e_file env)
        (replicate (IOBUFFERSIZE env) 0) (e_writes env, [], [], OK) = (wevs, stream, out, ret)"
  shows "nsh_catfile env cmd fp = (ret, stream, out @ [Text ''\<newline>''])"
  unfolding nsh_catfile_def assms by simp

subsection \<open>The loop of \<^verbatim>\<open>nsh_readfile\<close>\<close>


lemma readfile_step:
  assumes inv: "readfile_inv file buflen buffer ntotal bufptr remaining rest"
    and d: "data = take c rest" "0 < length data" "length data \<le> remaining"
  obtains buffer1 buffer2 where
    "store buffer bufptr data = Some buffer1"
    "upd buffer1 (int (ntotal + length data)) 0 = Some buffer2"
    "length buffer2 = length buffer"
    "readfile_inv file buflen buffer2 (ntotal + length data) (bufptr + length data)
        (remaining - length data) (drop c rest)"
proof -
  from inv have a: "bufptr = ntotal" "ntotal + remaining + 1 = buflen" "buflen \<le> length buffer"
    "take ntotal buffer @ rest = file"
    by (simp_all add: readfile_inv_def)
  let ?n = "ntotal + length data"
  let ?b1 = "take ntotal buffer @ data @ drop ?n buffer"
  let ?b2 = "?b1[?n := 0]"
  from a d have le: "?n < length buffer" by linarith
  then have s: "store buffer bufptr data = Some ?b1"
    unfolding store_def a(1) by simp
  from le have l1: "length ?b1 = length buffer" by simp
  have nn: "nat (int ntotal + int (length data)) = ?n" by linarith
  from l1 have u: "upd ?b1 (int ?n) 0 = Some ?b2"
    using le by (simp add: upd_def nn)
  from le have tk: "take ?n ?b2 = take ntotal buffer @ data" by simp
  from d(1) have dr: "data @ drop c rest = rest" by simp
  from le l1 have z: "?b2 ! ?n = 0" by simp
  have i: "readfile_inv file buflen ?b2 ?n (bufptr + length data) (remaining - length data)
        (drop c rest)"
    unfolding readfile_inv_def
  proof (intro conjI)
    show "bufptr + length data = ?n" using a by simp
    show "?n + (remaining - length data) + 1 = buflen" using a d by simp
    show "buflen \<le> length ?b2" using a l1 by simp
    show "take ?n ?b2 @ drop c rest = file" unfolding tk using dr a(4) by simp
    show "?b2 ! ?n = 0" by (rule z)
  qed
  from l1 have l2: "length ?b2 = length buffer" by simp
  show thesis by (rule that[OF s u l2 i])
qed


lemma readfile_loop_data:
  "sys_read revs rest remaining = (Inr data, revs', rest') \<Longrightarrow> 0 < length data \<Longrightarrow>
   length data \<le> remaining \<Longrightarrow> store buffer bufptr data = Some b1 \<Longrightarrow>
   upd b1 (int (ntotal + length data)) 0 = Some b2 \<Longrightarrow> 0 < buflen \<Longrightarrow>
     readfile_loop buflen cmd revs rest buffer ntotal bufptr remaining out =
     readfile_loop buflen cmd revs' rest' b2 (ntotal + length data) (bufptr + length data)
       (remaining - length data) out"
  by (simp add: readfile_loop.simps[of buflen cmd revs rest buffer ntotal bufptr remaining out])

lemma readfile_loop_interrupt:
  "0 < buflen \<Longrightarrow>
     readfile_loop buflen cmd (RdFail EINTR # revs) rest buffer ntotal bufptr remaining out =
     readfile_loop buflen cmd revs rest buffer ntotal bufptr remaining out"
  by (subst readfile_loop.simps) (simp add: EINTR_def)

lemma readfile_loop_fail:
  "0 < e \<Longrightarrow> e \<noteq> EINTR \<Longrightarrow>
     readfile_loop buflen cmd (RdFail e # revs) rest buffer ntotal bufptr remaining out =
     Some (ERROR, buffer, out @ [CmdFailed cmd ''read'' e])"
  by (simp add: readfile_loop.simps[of buflen cmd "RdFail e # revs" rest buffer ntotal bufptr remaining out])



lemma readfile_loop_same_reads:
  assumes "sys_read revsA rest remaining = (r, revsA', rest')"
    and "sys_read revsB rest remaining = (r, revsB', rest')"
    and "\<And>buffer2 nt bp rem.
           readfile_loop buflen cmd revsA' rest' buffer2 nt bp rem out =
           readfile_loop buflen cmd revsB' rest' buffer2 nt bp rem out"
  shows "readfile_loop buflen cmd revsA rest buffer ntotal bufptr remaining out =
         readfile_loop buflen cmd revsB rest buffer ntotal bufptr remaining out"
  unfolding readfile_loop.simps[of buflen cmd revsA rest buffer ntotal bufptr remaining out]
    readfile_loop.simps[of buflen cmd revsB rest buffer ntotal bufptr remaining out]
    assms(1,2)
  by (simp add: assms(3) split: sum.splits option.splits)

lemma readfile_loop_ignores_interrupts:
  "0 < buflen \<Longrightarrow>
     readfile_loop buflen cmd (filter (\<lambda>ev. \<not> is_interrupt ev) revs) rest buffer ntotal bufptr
       remaining out =
     readfile_loop buflen cmd revs rest buffer ntotal bufptr remaining out"
proof (induction revs arbitrary: rest buffer ntotal bufptr remaining)
  case Nil
  show ?case by simp
next
  case (Cons ev revs)
  note ih = Cons.IH[OF Cons.prems]
  show ?case
  proof (cases "is_interrupt ev")
    case True
    then have ev: "ev = RdFail EINTR" by (simp add: is_interrupt_def)
    from True have f: "filter (\<lambda>ev. \<not> is_interrupt ev) (ev # revs)
          = filter (\<lambda>ev. \<not> is_interrupt ev) revs"
      by simp
    show ?thesis
      unfolding f unfolding ev readfile_loop_interrupt[OF Cons.prems] by (rule ih)
  next
    case False
    then have f: "filter (\<lambda>ev. \<not> is_interrupt ev) (ev # revs)
          = ev # filter (\<lambda>ev. \<not> is_interrupt ev) revs"
      by simp
    obtain r rest' where sr: "sys_read (ev # revs) rest remaining = (r, revs, rest')"
      by (cases ev) auto
    then have sr': "sys_read (ev # filter (\<lambda>ev. \<not> is_interrupt ev) revs) rest remaining
          = (r, filter (\<lambda>ev. \<not> is_interrupt ev) revs, rest')"
      by (cases ev) auto
    show ?thesis
      unfolding f by (rule readfile_loop_same_reads[OF sr' sr]) (rule ih)
  qed
qed

subsection \<open>Interrupts and failures\<close>

lemma readfile_loop_reaches_failure:
  "readfile_inv file buflen buffer ntotal bufptr remaining rest \<Longrightarrow> 0 < buflen \<Longrightarrow>
   reads_pass pre \<Longrightarrow> requested pre \<le> remaining \<Longrightarrow> requested pre \<le> length rest \<Longrightarrow>
   0 < e \<Longrightarrow> e \<noteq> EINTR \<Longrightarrow>
     \<exists>buf'. readfile_loop buflen cmd (pre @ RdFail e # post) rest buffer ntotal bufptr remaining out
             = Some (ERROR, buf', out @ [CmdFailed cmd ''read'' e])"
proof (induction pre arbitrary: rest buffer ntotal bufptr remaining)
  case Nil
  then show ?case by (simp add: readfile_loop_fail)
next
  case (Cons ev pre)
  from Cons.prems(3) have rp: "reads_pass pre" by (simp add: reads_pass_def)
  show ?case
  proof (cases ev)
    case (RdFail e')
    with Cons.prems(3) have e': "e' = EINTR" by (simp add: reads_pass_def)
    from Cons.prems(4,5) have rq: "requested pre \<le> remaining" "requested pre \<le> length rest"
      by (simp_all add: RdFail)
    from Cons.IH[OF Cons.prems(1,2) rp rq Cons.prems(6,7)] show ?thesis
      unfolding RdFail e' append_Cons readfile_loop_interrupt[OF Cons.prems(2)] .
  next
    case (RdShort k)
    with Cons.prems(3) have k: "0 < k" by (simp add: reads_pass_def)
    from Cons.prems(4,5) have kk: "k \<le> remaining" "k \<le> length rest"
      and rq: "requested pre \<le> remaining - k" "requested pre \<le> length rest - k"
      by (simp_all add: RdShort)
    let ?data = "take k rest"
    from kk have mk: "min k remaining = k" and ld: "length ?data = k" by simp_all
    have sr: "sys_read ((ev # pre) @ RdFail e # post) rest remaining
        = (Inr ?data, pre @ RdFail e # post, drop k rest)"
      by (simp add: RdShort mk)
    from k ld have d: "0 < length ?data" by simp
    from kk ld have dl: "length ?data \<le> remaining" by simp
    from readfile_step[OF Cons.prems(1) refl d dl] obtain b1 b2 where
      s: "store buffer bufptr ?data = Some b1" and
      u: "upd b1 (int (ntotal + length ?data)) 0 = Some b2" and
      i: "readfile_inv file buflen b2 (ntotal + length ?data) (bufptr + length ?data)
            (remaining - length ?data) (drop k rest)"
      by blast
    note eq = readfile_loop_data[OF sr d dl s u Cons.prems(2)]
    from rq have rq': "requested pre \<le> remaining - length ?data"
      "requested pre \<le> length (drop k rest)"
      by (simp_all add: ld)
    from Cons.IH[OF i Cons.prems(2) rp rq' Cons.prems(6,7)] show ?thesis
      unfolding eq .
  qed
qed

lemma nsh_readfile_reaches_failure:
  assumes "e_open env fp = None" "1 \<le> buflen" "buflen \<le> length buffer"
    "e_reads env = pre @ RdFail e # post" "reads_pass pre"
    "requested pre \<le> buflen - 1" "requested pre \<le> length (e_file env)"
    "0 < e" "e \<noteq> EINTR"
  shows "\<exists>buf'. nsh_readfile env cmd fp buffer buflen
           = Some (ERROR, buf', [CmdFailed cmd ''read'' e])"
proof -
  let ?b = "buffer[0 := 0]"
  from assms(2,3) have ne: "0 < length buffer" by linarith
  then have u: "upd buffer 0 0 = Some ?b" by (simp add: upd_def)
  from assms(2) have r: "(if buflen = 0 then SIZE_MAX else buflen - 1) = buflen - 1" by simp
  have eq: "nsh_readfile env cmd fp buffer buflen =
      readfile_loop buflen cmd (pre @ RdFail e # post) (e_file env) ?b 0 0 (buflen - 1) []"
    unfolding nsh_readfile_def assms(1) u r assms(4) by simp
  have inv: "readfile_inv (e_file env) buflen ?b 0 0 (buflen - 1) (e_file env)"
    unfolding readfile_inv_def using assms(2,3) ne by simp
  from assms(2) have bl: "0 < buflen" by simp
  from readfile_loop_reaches_failure[OF inv bl assms(5,6,7,8,9), of cmd post "[]"]
  show ?thesis unfolding eq by simp
qed

lemma catfile_write_sink:
  "\<exists>ext. fst (snd (snd (catfile_write nosig cmd buffer nbytesread s nbyteswritten)))
          = fst (snd (snd s)) @ ext"
proof (induction nosig cmd buffer nbytesread s nbyteswritten rule: catfile_write.induct)
  case (1 nosig cmd buffer nbytesread wevs stream out ret nbyteswritten)
  show ?case
  proof (cases "nbyteswritten < nbytesread")
    case False
    then show ?thesis by (simp add: catfile_write_done)
  next
    case True
    show ?thesis
    proof (cases wevs)
      case Nil
      then show ?thesis by (simp add: catfile_write_full)
    next
      case (Cons ev es)
      show ?thesis
      proof (cases ev)
        case (WrFail e)
        with Cons True show ?thesis by (simp add: catfile_write_fail)
      next
        case (WrShort n)
        have w: "nsh_write wevs stream buffer nbytesread
           = (Inr (min n nbytesread), es, stream @ take (min n nbytesread) buffer)"
          by (simp add: Cons WrShort)
        from "1.IH"[OF True w[symmetric] refl refl]
        show ?thesis unfolding Cons WrShort catfile_write_short[OF True] by simp
      qed
    qed
  qed
qed

lemma catfile_loop_sink:
  "\<exists>ext. fst (snd (snd (catfile_loop iobs nosig cmd revs rest buffer s))) = fst (snd (snd s)) @ ext"
proof (induction iobs nosig cmd revs rest buffer s rule: catfile_loop.induct)
  case (1 iobs nosig cmd revs rest buffer wevs stream out ret)
  obtain r revs' rest' where sr: "sys_read revs rest iobs = (r, revs', rest')"
    by (cases "sys_read revs rest iobs") auto
  show ?case
  proof (cases r)
    case (Inl e)
    with sr show ?thesis by (simp add: catfile_loop.simps[of _ _ _ revs])
  next
    case (Inr data)
    show ?thesis
    proof (cases "length data > 0")
      case False
      with sr Inr show ?thesis by (simp add: catfile_loop.simps[of _ _ _ revs])
    next
      case True
      let ?s1 = "catfile_write nosig cmd (data @ drop (length data) buffer) (length data)
                 (wevs, stream, out, ret) 0"
      from catfile_write_sink[of nosig cmd "data @ drop (length data) buffer" "length data"
          "(wevs, stream, out, ret)" 0]
      obtain ext1 where e1: "fst (snd (snd ?s1)) = out @ ext1" by auto
      from "1.IH"[OF sr[symmetric] Inr refl True]
      obtain ext2 where
        "fst (snd (snd (catfile_loop iobs nosig cmd revs' rest'
            (data @ drop (length data) buffer) ?s1))) = fst (snd (snd ?s1)) @ ext2"
        by blast
      then have "fst (snd (snd (catfile_loop iobs nosig cmd revs' rest'
            (data @ drop (length data) buffer) ?s1))) = out @ (ext1 @ ext2)"
        by (simp add: e1)
      then show ?thesis using sr Inr True
        by (simp add: catfile_loop.simps[of _ _ _ revs] del: append_assoc)
    qed
  qed
qed

lemma catfile_loop_reaches_read_failure:
  "no_read_failure pre \<Longrightarrow> requested pre \<le> length rest \<Longrightarrow> 0 < iobs \<Longrightarrow>
     \<exists>wevs' stream' out'.
        catfile_loop iobs nosig cmd (pre @ RdFail e # post) rest buffer s
          = (wevs', stream', out' @ [cat_failure nosig cmd ''read'' e], ERROR)"
proof (induction pre arbitrary: rest buffer s)
  case Nil
  obtain wevs stream out ret where s: "s = (wevs, stream, out, ret)" by (cases s) auto
  show ?case unfolding s by (simp add: catfile_loop_fail)
next
  case (Cons ev pre)
  obtain wevs stream out ret where s: "s = (wevs, stream, out, ret)" by (cases s) auto
  from Cons.prems(1) obtain k where ev: "ev = RdShort k" and k: "0 < k"
    and np: "no_read_failure pre"
    by (cases ev) (auto simp: no_read_failure_def)
  let ?c = "min k iobs"
  let ?data = "take ?c rest"
  from Cons.prems(2) have kr: "k \<le> length rest" and rq: "requested pre \<le> length rest - k"
    by (simp_all add: ev)
  from k Cons.prems(3) kr have d: "0 < length ?data" by simp
  from rq have rq': "requested pre \<le> length (drop ?c rest)" by simp
  have sr: "sys_read ((ev # pre) @ RdFail e # post) rest iobs
      = (Inr ?data, pre @ RdFail e # post, drop ?c rest)"
    by (simp add: ev)
  let ?buf = "?data @ drop (length ?data) buffer"
  have "catfile_loop iobs nosig cmd ((ev # pre) @ RdFail e # post) rest buffer s
      = catfile_loop iobs nosig cmd (pre @ RdFail e # post) (drop ?c rest) ?buf
          (catfile_write nosig cmd ?buf (length ?data) (wevs, stream, out, ret) 0)"
    unfolding s catfile_loop.simps[of iobs nosig cmd "(ev # pre) @ RdFail e # post" rest buffer] sr
    using d by simp
  with Cons.IH[OF np rq' Cons.prems(3)] show ?case by simp
qed

lemma catfile_loop_reaches_write_failure:
  "no_read_failure revs \<Longrightarrow> 0 < iobs \<Longrightarrow> full_writes iobs pre \<Longrightarrow>
   length pre * iobs < length rest \<Longrightarrow>
     snd (snd (snd (catfile_loop iobs nosig cmd revs rest buffer
                      (pre @ WrFail e # post, stream, out, ret)))) = ERROR
     \<and> cat_failure nosig cmd ''write'' e
          \<in> set (fst (snd (snd (catfile_loop iobs nosig cmd revs rest buffer
                                   (pre @ WrFail e # post, stream, out, ret)))))"
proof (induction pre arbitrary: revs rest buffer stream)
  case Nil
  from sys_read_ok[OF Nil.prems(1,2), of rest] obtain c revs' where
    c: "0 < c" and sr: "sys_read revs rest iobs = (Inr (take c rest), revs', drop c rest)"
    by blast
  let ?data = "take c rest"
  let ?buf = "?data @ drop (length ?data) buffer"
  from Nil.prems(4) c have d: "0 < length ?data" by simp
  let ?s1 = "(post, stream, out @ [cat_failure nosig cmd ''write'' e], ERROR)"
  let ?r = "catfile_loop iobs nosig cmd revs' (drop c rest) ?buf ?s1"
  have eq: "catfile_loop iobs nosig cmd revs rest buffer ([] @ WrFail e # post, stream, out, ret) = ?r"
    unfolding append_Nil catfile_loop.simps[of iobs nosig cmd revs rest buffer] sr
    using d by (simp add: catfile_write_fail)
  have "snd (snd (snd ?r)) = ERROR" by (rule catfile_loop_keeps_error) simp
  moreover from catfile_loop_sink[of iobs nosig cmd revs' "drop c rest" ?buf ?s1]
  have "cat_failure nosig cmd ''write'' e \<in> set (fst (snd (snd ?r)))" by auto
  ultimately show ?case unfolding eq by simp
next
  case (Cons ev pre)
  from Cons.prems(3) obtain k where ev: "ev = WrShort k" and k: "iobs \<le> k"
    and fw: "full_writes iobs pre"
    by (cases ev) (auto simp: full_writes_def)
  from sys_read_ok[OF Cons.prems(1,2), of rest] obtain c revs' where
    c: "0 < c" "c \<le> iobs" and
    sr: "sys_read revs rest iobs = (Inr (take c rest), revs', drop c rest)" and
    n: "no_read_failure revs'"
    by blast
  let ?data = "take c rest"
  let ?buf = "?data @ drop (length ?data) buffer"
  from Cons.prems(4) have "0 < length rest" by (cases rest) simp_all
  with c have d: "0 < length ?data" by simp
  from c k have mk: "min k (length ?data) = length ?data" by simp
  have w: "catfile_write nosig cmd ?buf (length ?data)
             ((ev # pre) @ WrFail e # post, stream, out, ret) 0
        = (pre @ WrFail e # post, stream @ take (length ?data) ?buf, out, ret)"
    unfolding ev append_Cons catfile_write_short[OF d] mk
    by (simp add: catfile_write_done)
  have eq: "catfile_loop iobs nosig cmd revs rest buffer
              ((ev # pre) @ WrFail e # post, stream, out, ret)
      = catfile_loop iobs nosig cmd revs' (drop c rest) ?buf
          (pre @ WrFail e # post, stream @ take (length ?data) ?buf, out, ret)"
    unfolding catfile_loop.simps[of iobs nosig cmd revs rest buffer] sr
    using d w by simp
  from Cons.prems(4) c have "length pre * iobs + iobs < length rest" by simp
  with c have le: "length pre * iobs < length (drop c rest)" by simp
  from Cons.IH[OF n Cons.prems(2) fw le] show ?case unfolding eq .
qed

lemma catfile_write_reports:
  "\<exists>wevs' stream' ext ret'.
      catfile_write nosig cmd buffer nbytesread (wevs, stream, out, ret) nbyteswritten
        = (wevs', stream', out @ ext, ret') \<and>
      (if ext = [] then ret' = ret else ret' = ERROR)"
proof (induction nosig cmd buffer nbytesread "(wevs, stream, out, ret)" nbyteswritten
        arbitrary: wevs stream rule: catfile_write.induct)
  case (1 nosig cmd buffer nbytesread wevs stream nbyteswritten)
  show ?case
  proof (cases "nbyteswritten < nbytesread")
    case False
    then show ?thesis by (simp add: catfile_write_done)
  next
    case True
    show ?thesis
    proof (cases wevs)
      case Nil
      then show ?thesis by (simp add: catfile_write_full)
    next
      case (Cons ev es)
      show ?thesis
      proof (cases ev)
        case (WrFail e)
        with Cons True show ?thesis by (simp add: catfile_write_fail)
      next
        case (WrShort n)
        have w: "nsh_write wevs stream buffer nbytesread
           = (Inr (min n nbytesread), es, stream @ take (min n nbytesread) buffer)"
          by (simp add: Cons WrShort)
        from "1.hyps"[OF True w[symmetric] refl refl]
        show ?thesis unfolding Cons WrShort catfile_write_short[OF True] by simp
      qed
    qed
  qed
qed

lemma catfile_loop_reports:
  "\<exists>wevs' stream' ext ret'.
      catfile_loop iobs nosig cmd revs rest buffer (wevs, stream, out, ret)
        = (wevs', stream', out @ ext, ret') \<and>
      (if ext = [] then ret' = ret else ret' = ERROR)"
proof (induction "length revs + length rest" arbitrary: revs rest buffer wevs stream out ret
        rule: less_induct)
  case less
  obtain r revs' rest' where sr: "sys_read revs rest iobs = (r, revs', rest')"
    by (cases "sys_read revs rest iobs") auto
  note sim = catfile_loop.simps[of iobs nosig cmd revs rest buffer wevs stream out ret]
  show ?case
  proof (cases r)
    case (Inl e)
    with sr show ?thesis by (simp add: sim)
  next
    case (Inr data)
    show ?thesis
    proof (cases "length data > 0")
      case False
      with sr Inr show ?thesis by (simp add: sim)
    next
      case True
      let ?buf = "data @ drop (length data) buffer"
      from catfile_write_reports[of nosig cmd ?buf "length data" wevs stream out ret 0]
      obtain wevs1 stream1 ext1 ret1 where
        w: "catfile_write nosig cmd ?buf (length data) (wevs, stream, out, ret) 0
              = (wevs1, stream1, out @ ext1, ret1)" and
        r1: "if ext1 = [] then ret1 = ret else ret1 = ERROR"
        by blast
      have m: "length revs' + length rest' < length revs + length rest"
        using sr Inr True by (cases "(revs, rest, iobs)" rule: sys_read.cases) auto
      from less.hyps[OF m, of ?buf wevs1 stream1 "out @ ext1" ret1]
      obtain wevs2 stream2 ext2 ret2 where
        l: "catfile_loop iobs nosig cmd revs' rest' ?buf (wevs1, stream1, out @ ext1, ret1)
              = (wevs2, stream2, (out @ ext1) @ ext2, ret2)" and
        r2: "if ext2 = [] then ret2 = ret1 else ret2 = ERROR"
        by blast
      have eq: "catfile_loop iobs nosig cmd revs rest buffer (wevs, stream, out, ret)
          = (wevs2, stream2, out @ (ext1 @ ext2), ret2)"
        using sr Inr True w l by (simp add: sim)
      from r1 r2 have "if ext1 @ ext2 = [] then ret2 = ret else ret2 = ERROR"
        by (auto split: if_splits)
      with eq show ?thesis by blast
    qed
  qed
qed

lemma nsh_catfile_fails_iff_reports:
  "(fst (nsh_catfile env cmd fp) = OK \<or> fst (nsh_catfile env cmd fp) = ERROR) \<and>
   (fst (nsh_catfile env cmd fp) = OK) = (snd (snd (nsh_catfile env cmd fp)) = [Text ''\<newline>''])"
proof (cases "e_open env fp")
  case (Some e)
  then show ?thesis by (simp add: nsh_catfile_def OK_def ERROR_def)
next
  case None
  show ?thesis
  proof (cases "e_malloc env")
    case (Some e)
    with None show ?thesis by (simp add: nsh_catfile_def OK_def ERROR_def)
  next
    case nm: None
    from catfile_loop_reports[of "IOBUFFERSIZE env" "CONFIG_DISABLE_SIGNALS env" cmd "e_reads env"
        "e_file env" "replicate (IOBUFFERSIZE env) 0" "e_writes env" "[]" "[]" OK]
    obtain wevs' stream' ext ret' where
      l: "catfile_loop (IOBUFFERSIZE env) (CONFIG_DISABLE_SIGNALS env) cmd (e_reads env)
            (e_file env) (replicate (IOBUFFERSIZE env) 0) (e_writes env, [], [], OK)
          = (wevs', stream', [] @ ext, ret')" and
      r: "if ext = [] then ret' = OK else ret' = ERROR"
      by blast
    from nsh_catfile_opened[OF None nm l]
    have c: "nsh_catfile env cmd fp = (ret', stream', ([] @ ext) @ [Text ''\<newline>''])" .
    from r show ?thesis unfolding c by (auto simp: OK_def ERROR_def split: if_splits)
  qed
qed

text \<open>
  Claim C8, amended. \<^verbatim>\<open>nsh_readfile\<close>, called with \<open>buflen \<ge> 1\<close>, retries a \<^verbatim>\<open>read\<close>
  that fails with \<^verbatim>\<open>EINTR\<close>: its result is that of the run without the interrupted
  reads. When a \<^verbatim>\<open>read\<close> fails with another \<^verbatim>\<open>errno\<close>, at the first call or after any
  number of interrupted reads and of reads that delivered data, \<^verbatim>\<open>nsh_readfile\<close> returns
  \<^verbatim>\<open>ERROR\<close> and the sink holds the message of a failed ``read''. A failed \<^verbatim>\<open>open\<close>
  makes either helper return \<^verbatim>\<open>ERROR\<close> with the message of a failed ``open''.
  \<^verbatim>\<open>nsh_catfile\<close> does not retry: when a \<^verbatim>\<open>read\<close> fails, at the first call or after any
  number of reads that delivered data, it returns \<^verbatim>\<open>ERROR\<close>, whatever the \<^verbatim>\<open>errno\<close>,
  and the last message before the newline is the signal for \<^verbatim>\<open>EINTR\<close> (when signals
  are configured) and a failed ``read'' otherwise; when the first \<^verbatim>\<open>read\<close> fails nothing
  has been written. When an \<^verbatim>\<open>nsh_write\<close> fails, at the first chunk or after any number
  of chunks written in full, \<^verbatim>\<open>nsh_catfile\<close> returns \<^verbatim>\<open>ERROR\<close> and the sink holds the
  like message for ``write''. The scripts are those in which the failing call is reached
  (\<open>reads_pass\<close>, \<open>requested\<close>, \<open>full_writes\<close>); for \<^verbatim>\<open>nsh_readfile\<close> the array has
  at least \<open>buflen\<close> bytes and the \<^verbatim>\<open>errno\<close> is positive. In every run
  \<^verbatim>\<open>nsh_catfile\<close> returns \<^verbatim>\<open>OK\<close> or \<^verbatim>\<open>ERROR\<close>, and \<^verbatim>\<open>OK\<close> exactly when the sink
  holds nothing but the closing newline: whatever it reports makes it fail.
\<close>

theorem file_helpers_on_failure:
  "(0 < buflen \<longrightarrow>
      nsh_readfile env cmd fp buffer buflen
        = nsh_readfile (env\<lparr>e_reads := filter (\<lambda>ev. \<not> is_interrupt ev) (e_reads env)\<rparr>)
            cmd fp buffer buflen)
   \<and> (e_open env fp = None \<and> 1 \<le> buflen \<and> buflen \<le> length buffer
        \<and> e_reads env = pre @ RdFail e # post \<and> reads_pass pre
        \<and> requested pre \<le> buflen - 1 \<and> requested pre \<le> length (e_file env)
        \<and> 0 < e \<and> e \<noteq> EINTR \<longrightarrow>
      (\<exists>buf'. nsh_readfile env cmd fp buffer buflen
                = Some (ERROR, buf', [CmdFailed cmd ''read'' e])))
   \<and> (e_open env fp = Some e \<longrightarrow>
      nsh_readfile env cmd fp buffer buflen = Some (ERROR, buffer, [CmdFailed cmd ''open'' e])
      \<and> nsh_catfile env cmd fp = (ERROR, [], [CmdFailed cmd ''open'' e]))
   \<and> (e_open env fp = None \<and> e_malloc env = None \<and> e_reads env = RdFail e # post \<longrightarrow>
      nsh_catfile env cmd fp
        = (ERROR, [],
           [if \<not> CONFIG_DISABLE_SIGNALS env \<and> e = EINTR then SignalRecvd cmd
            else CmdFailed cmd ''read'' e, Text ''\<newline>'']))
   \<and> (e_open env fp = None \<and> e_malloc env = None \<and> 0 < IOBUFFERSIZE env
        \<and> e_reads env = pre @ RdFail e # post \<and> no_read_failure pre
        \<and> requested pre \<le> length (e_file env) \<longrightarrow>
      (\<exists>stream out.
         nsh_catfile env cmd fp
           = (ERROR, stream,
              out @ [if \<not> CONFIG_DISABLE_SIGNALS env \<and> e = EINTR then SignalRecvd cmd
                     else CmdFailed cmd ''read'' e, Text ''\<newline>''])))
   \<and> (e_open env fp = None \<and> e_malloc env = None \<and> 0 < IOBUFFERSIZE env
        \<and> no_read_failure (e_reads env)
        \<and> e_writes env = wpre @ WrFail e # wpost \<and> full_writes (IOBUFFERSIZE env) wpre
        \<and> length wpre * IOBUFFERSIZE env < length (e_file env) \<longrightarrow>
      fst (nsh_catfile env cmd fp) = ERROR
      \<and> (if \<not> CONFIG_DISABLE_SIGNALS env \<and> e = EINTR then SignalRecvd cmd
          else CmdFailed cmd ''write'' e) \<in> set (snd (snd (nsh_catfile env cmd fp))))
   \<and> (fst (nsh_catfile env cmd fp) = OK \<or> fst (nsh_catfile env cmd fp) = ERROR)
   \<and> (fst (nsh_catfile env cmd fp) = OK)
       = (snd (snd (nsh_catfile env cmd fp)) = [Text ''\<newline>''])"
proof (intro conjI impI)
  show "nsh_readfile env cmd fp buffer buflen
        = nsh_readfile (env\<lparr>e_reads := filter (\<lambda>ev. \<not> is_interrupt ev) (e_reads env)\<rparr>)
            cmd fp buffer buflen" if "0 < buflen"
    unfolding nsh_readfile_def using that
    by (simp add: readfile_loop_ignores_interrupts[OF that] split: option.splits)
  show "\<exists>buf'. nsh_readfile env cmd fp buffer buflen
                = Some (ERROR, buf', [CmdFailed cmd ''read'' e])"
    if "e_open env fp = None \<and> 1 \<le> buflen \<and> buflen \<le> length buffer
        \<and> e_reads env = pre @ RdFail e # post \<and> reads_pass pre
        \<and> requested pre \<le> buflen - 1 \<and> requested pre \<le> length (e_file env)
        \<and> 0 < e \<and> e \<noteq> EINTR"
    by (rule nsh_readfile_reaches_failure[of env fp buflen buffer pre e post]) (use that in simp_all)
  show "nsh_readfile env cmd fp buffer buflen = Some (ERROR, buffer, [CmdFailed cmd ''open'' e])"
    if "e_open env fp = Some e"
    using that by (simp add: nsh_readfile_def)
  show "nsh_catfile env cmd fp = (ERROR, [], [CmdFailed cmd ''open'' e])"
    if "e_open env fp = Some e"
    using that by (simp add: nsh_catfile_def)
  show "nsh_catfile env cmd fp
        = (ERROR, [],
           [if \<not> CONFIG_DISABLE_SIGNALS env \<and> e = EINTR then SignalRecvd cmd
            else CmdFailed cmd ''read'' e, Text ''\<newline>''])"
    if "e_open env fp = None \<and> e_malloc env = None \<and> e_reads env = RdFail e # post"
    using that unfolding nsh_catfile_def by (simp add: catfile_loop_fail cat_failure_def)
  show "\<exists>stream out.
         nsh_catfile env cmd fp
           = (ERROR, stream,
              out @ [if \<not> CONFIG_DISABLE_SIGNALS env \<and> e = EINTR then SignalRecvd cmd
                     else CmdFailed cmd ''read'' e, Text ''\<newline>''])"
    if h: "e_open env fp = None \<and> e_malloc env = None \<and> 0 < IOBUFFERSIZE env
        \<and> e_reads env = pre @ RdFail e # post \<and> no_read_failure pre
        \<and> requested pre \<le> length (e_file env)"
  proof -
    from h have p: "no_read_failure pre" "requested pre \<le> length (e_file env)"
      "0 < IOBUFFERSIZE env"
      by simp_all
    from catfile_loop_reaches_read_failure[OF p, of "CONFIG_DISABLE_SIGNALS env" cmd e post
        "replicate (IOBUFFERSIZE env) 0" "(e_writes env, [], [], OK)"]
    obtain wevs' stream' out' where
      "catfile_loop (IOBUFFERSIZE env) (CONFIG_DISABLE_SIGNALS env) cmd (e_reads env) (e_file env)
         (replicate (IOBUFFERSIZE env) 0) (e_writes env, [], [], OK)
       = (wevs', stream', out' @ [cat_failure (CONFIG_DISABLE_SIGNALS env) cmd ''read'' e], ERROR)"
      using h by auto
    from nsh_catfile_opened[OF _ _ this] h
    have "nsh_catfile env cmd fp
        = (ERROR, stream', (out' @ [cat_failure (CONFIG_DISABLE_SIGNALS env) cmd ''read'' e])
             @ [Text ''\<newline>''])"
      by simp
    then show ?thesis by (simp add: cat_failure_def)
  qed
next
  assume h: "e_open env fp = None \<and> e_malloc env = None \<and> 0 < IOBUFFERSIZE env
        \<and> no_read_failure (e_reads env)
        \<and> e_writes env = wpre @ WrFail e # wpost \<and> full_writes (IOBUFFERSIZE env) wpre
        \<and> length wpre * IOBUFFERSIZE env < length (e_file env)"
  let ?l = "catfile_loop (IOBUFFERSIZE env) (CONFIG_DISABLE_SIGNALS env) cmd (e_reads env)
         (e_file env) (replicate (IOBUFFERSIZE env) 0) (e_writes env, [], [], OK)"
  from h have p: "no_read_failure (e_reads env)" "0 < IOBUFFERSIZE env"
    "full_writes (IOBUFFERSIZE env) wpre" "length wpre * IOBUFFERSIZE env < length (e_file env)"
    and ew: "e_writes env = wpre @ WrFail e # wpost"
    by simp_all
  from catfile_loop_reaches_write_failure[OF p, of "CONFIG_DISABLE_SIGNALS env" cmd
      "replicate (IOBUFFERSIZE env) 0" e wpost "[]" "[]" OK]
  have r: "snd (snd (snd ?l)) = ERROR"
    "cat_failure (CONFIG_DISABLE_SIGNALS env) cmd ''write'' e \<in> set (fst (snd (snd ?l)))"
    unfolding ew by simp_all
  obtain wevs stream out ret where l: "?l = (wevs, stream, out, ret)" by (cases ?l) auto
  from h nsh_catfile_opened[OF _ _ l]
  have c: "nsh_catfile env cmd fp = (ret, stream, out @ [Text ''\<newline>''])" by simp
  from r[unfolded l] show "fst (nsh_catfile env cmd fp) = ERROR" unfolding c by simp
  from r[unfolded l]
  show "(if \<not> CONFIG_DISABLE_SIGNALS env \<and> e = EINTR then SignalRecvd cmd
          else CmdFailed cmd ''write'' e) \<in> set (snd (snd (nsh_catfile env cmd fp)))"
    unfolding c by (simp add: cat_failure_def)
next
  show "fst (nsh_catfile env cmd fp) = OK \<or> fst (nsh_catfile env cmd fp) = ERROR"
    using nsh_catfile_fails_iff_reports[of env cmd fp] by blast
  show "(fst (nsh_catfile env cmd fp) = OK)
       = (snd (snd (nsh_catfile env cmd fp)) = [Text ''\<newline>''])"
    using nsh_catfile_fails_iff_reports[of env cmd fp] by blast
qed

text \<open>
  The file of three bytes: \<^verbatim>\<open>nsh_readfile\<close> goes on after an interrupted \<^verbatim>\<open>read\<close>;
  it returns \<^verbatim>\<open>ERROR\<close> when the third \<^verbatim>\<open>read\<close> fails with \<^verbatim>\<open>errno\<close> 5, after an
  interrupted one and one that delivered a byte. \<^verbatim>\<open>nsh_catfile\<close> returns \<^verbatim>\<open>ERROR\<close>
  when its first \<^verbatim>\<open>read\<close> is interrupted, when its second \<^verbatim>\<open>read\<close> fails, when the
  \<^verbatim>\<open>nsh_write\<close> of its second chunk fails, and when \<^verbatim>\<open>open\<close> fails.
\<close>

theorem file_helpers_on_failure_witness:
  "nsh_readfile ex_env_intr ''cat'' ''/f'' [1, 1, 1] 3 = Some (OK, [97, 98, 0], [])
   \<and> map_option (\<lambda>r. (fst r, snd (snd r)))
        (nsh_readfile (ex_env\<lparr>e_reads := [RdFail EINTR, RdShort 1, RdFail 5]\<rparr>)
           ''cat'' ''/f'' [1, 1, 1] 3)
       = Some (ERROR, [CmdFailed ''cat'' ''read'' 5])
   \<and> nsh_catfile ex_env_intr ''cat'' ''/f'' = (ERROR, [], [SignalRecvd ''cat'', Text ''\<newline>''])
   \<and> fst (nsh_catfile (ex_env\<lparr>e_reads := [RdShort 2, RdFail 5]\<rparr>) ''cat'' ''/f'') = ERROR
   \<and> fst (nsh_catfile (ex_env\<lparr>e_writes := [WrShort 2, WrFail 5]\<rparr>) ''cat'' ''/f'') = ERROR
   \<and> CmdFailed ''cat'' ''write'' 5
        \<in> set (snd (snd (nsh_catfile (ex_env\<lparr>e_writes := [WrShort 2, WrFail 5]\<rparr>) ''cat'' ''/f'')))
   \<and> nsh_catfile ex_env_noent ''cat'' ''/f'' = (ERROR, [], [CmdFailed ''cat'' ''open'' 2])"
proof -
  note t = file_helpers_on_failure[where env = ex_env_intr and cmd = "''cat''" and fp = "''/f''"
      and buffer = "[1, 1, 1]" and buflen = 3 and e = EINTR and post = "[]"]
  have f: "ex_env_intr\<lparr>e_reads := filter (\<lambda>ev. \<not> is_interrupt ev) (e_reads ex_env_intr)\<rparr> = ex_env"
    by (simp add: ex_env_intr_def ex_env_def is_interrupt_def)
  have "nsh_readfile ex_env ''cat'' ''/f'' [1, 1, 1] 3 = Some (OK, [97, 98, 0], [])"
    by code_simp
  with t f have a: "nsh_readfile ex_env_intr ''cat'' ''/f'' [1, 1, 1] 3 = Some (OK, [97, 98, 0], [])"
    by simp
  let ?rf = "ex_env\<lparr>e_reads := [RdFail EINTR, RdShort 1, RdFail 5]\<rparr>"
  have "e_open ?rf ''/f'' = None \<and> (1::nat) \<le> 3 \<and> 3 \<le> length [1, 1, 1 :: byte]
        \<and> e_reads ?rf = [RdFail EINTR, RdShort 1] @ RdFail 5 # []
        \<and> reads_pass [RdFail EINTR, RdShort 1]
        \<and> requested [RdFail EINTR, RdShort 1] \<le> 3 - 1
        \<and> requested [RdFail EINTR, RdShort 1] \<le> length (e_file ?rf)
        \<and> (0::int) < 5 \<and> 5 \<noteq> EINTR"
    by (simp add: ex_env_def reads_pass_def EINTR_def)
  with file_helpers_on_failure[where env = ?rf and cmd = "''cat''" and fp = "''/f''"
      and buffer = "[1, 1, 1]" and buflen = 3 and e = 5 and pre = "[RdFail EINTR, RdShort 1]"
      and post = "[]"]
  have "\<exists>buf'. nsh_readfile ?rf ''cat'' ''/f'' [1, 1, 1] 3
                = Some (ERROR, buf', [CmdFailed ''cat'' ''read'' 5])"
    by blast
  then have b: "map_option (\<lambda>r. (fst r, snd (snd r))) (nsh_readfile ?rf ''cat'' ''/f'' [1, 1, 1] 3)
       = Some (ERROR, [CmdFailed ''cat'' ''read'' 5])"
    by auto
  have "e_open ex_env_intr ''/f'' = None \<and> e_malloc ex_env_intr = None
      \<and> e_reads ex_env_intr = RdFail EINTR # []"
    by (simp add: ex_env_intr_def)
  with t have c: "nsh_catfile ex_env_intr ''cat'' ''/f''
      = (ERROR, [], [SignalRecvd ''cat'', Text ''\<newline>''])"
    by (simp add: ex_env_intr_def)
  let ?cr = "ex_env\<lparr>e_reads := [RdShort 2, RdFail 5]\<rparr>"
  have "e_open ?cr ''/f'' = None \<and> e_malloc ?cr = None \<and> 0 < IOBUFFERSIZE ?cr
        \<and> e_reads ?cr = [RdShort 2] @ RdFail 5 # [] \<and> no_read_failure [RdShort 2]
        \<and> requested [RdShort 2] \<le> length (e_file ?cr)"
    by (simp add: ex_env_def no_read_failure_def)
  with file_helpers_on_failure[where env = ?cr and cmd = "''cat''" and fp = "''/f''"
      and e = 5 and pre = "[RdShort 2]" and post = "[]"]
  have "\<exists>stream out. nsh_catfile ?cr ''cat'' ''/f''
           = (ERROR, stream,
              out @ [if \<not> CONFIG_DISABLE_SIGNALS ?cr \<and> 5 = EINTR then SignalRecvd ''cat''
                     else CmdFailed ''cat'' ''read'' 5, Text ''\<newline>''])"
    by blast
  then have d: "fst (nsh_catfile ?cr ''cat'' ''/f'') = ERROR" by auto
  let ?cw = "ex_env\<lparr>e_writes := [WrShort 2, WrFail 5]\<rparr>"
  have "e_open ?cw ''/f'' = None \<and> e_malloc ?cw = None \<and> 0 < IOBUFFERSIZE ?cw
        \<and> no_read_failure (e_reads ?cw)
        \<and> e_writes ?cw = [WrShort 2] @ WrFail 5 # [] \<and> full_writes (IOBUFFERSIZE ?cw) [WrShort 2]
        \<and> length [WrShort 2] * IOBUFFERSIZE ?cw < length (e_file ?cw)"
    by (simp add: ex_env_def no_read_failure_def full_writes_def)
  with file_helpers_on_failure[where env = ?cw and cmd = "''cat''" and fp = "''/f''"
      and e = 5 and wpre = "[WrShort 2]" and wpost = "[]"]
  have "fst (nsh_catfile ?cw ''cat'' ''/f'') = ERROR
      \<and> (if \<not> CONFIG_DISABLE_SIGNALS ?cw \<and> 5 = EINTR then SignalRecvd ''cat''
          else CmdFailed ''cat'' ''write'' 5) \<in> set (snd (snd (nsh_catfile ?cw ''cat'' ''/f'')))"
    by blast
  then have e: "fst (nsh_catfile ?cw ''cat'' ''/f'') = ERROR"
    "CmdFailed ''cat'' ''write'' 5 \<in> set (snd (snd (nsh_catfile ?cw ''cat'' ''/f'')))"
    by (simp_all add: EINTR_def)
  have "e_open ex_env_noent ''/f'' = Some 2" by (simp add: ex_env_noent_def)
  with file_helpers_on_failure[where env = ex_env_noent and cmd = "''cat''" and fp = "''/f''"
      and e = 2]
  have g: "nsh_catfile ex_env_noent ''cat'' ''/f'' = (ERROR, [], [CmdFailed ''cat'' ''open'' 2])"
    by blast
  from a b c d e g show ?thesis by simp
qed

text \<open>
  With the first \<^verbatim>\<open>read\<close> interrupted, \<^verbatim>\<open>nsh_catfile\<close> writes nothing, reports the
  signal and returns \<^verbatim>\<open>ERROR\<close>; without the interrupt it writes the three bytes and
  returns \<^verbatim>\<open>OK\<close>.
\<close>

theorem nsh_catfile_interrupt_counterexample:
  "nsh_catfile ex_env_intr ''cat'' ''/f'' = (ERROR, [], [SignalRecvd ''cat'', Text ''\<newline>''])
   \<and> e_reads ex_env_intr = [RdFail EINTR]
   \<and> nsh_catfile ex_env ''cat'' ''/f'' = (OK, [97, 98, 99], [Text ''\<newline>''])"
  by code_simp

subsection \<open>The terminator\<close>




subsection \<open>Partial writes\<close>

text \<open>
  Claim C10. In the inner loop of \<^verbatim>\<open>nsh_catfile\<close>, after \<^verbatim>\<open>nsh_write\<close> has transferred
  \<open>n < nbytesread\<close> bytes, the loop goes on with the same buffer and the same length
  \<open>nbytesread\<close>, and the next full transfer sends the buffer from its start: the stream
  gets the first \<open>n\<close> bytes and then all \<open>nbytesread\<close> bytes. So the stream is the file's
  contents when every \<^verbatim>\<open>nsh_write\<close> transfers all it is asked to (and no \<^verbatim>\<open>read\<close>
  fails), and it is not when one \<^verbatim>\<open>nsh_write\<close> transfers \<open>0 < n\<close> bytes of a longer
  chunk: then the first \<open>n\<close> bytes of the file come twice.
\<close>

theorem nsh_catfile_partial_write:
  "(nbyteswritten < nbytesread \<and> n < nbytesread \<longrightarrow>
      catfile_write nosig cmd buffer nbytesread (WrShort n # wevs, stream, out, ret)
          nbyteswritten
        = catfile_write nosig cmd buffer nbytesread (wevs, stream @ take n buffer, out, ret)
            (nbyteswritten + n))
   \<and> (n < nbytesread \<longrightarrow>
      catfile_write nosig cmd buffer nbytesread ([WrShort n], stream, out, ret) 0
        = ([], stream @ take n buffer @ take nbytesread buffer, out, ret))
   \<and> (e_open env fp = None \<and> e_malloc env = None \<and> e_writes env = []
        \<and> no_read_failure (e_reads env) \<and> 0 < IOBUFFERSIZE env \<longrightarrow>
      nsh_catfile env cmd fp = (OK, e_file env, [Text ''\<newline>'']))
   \<and> (e_open env fp = None \<and> e_malloc env = None \<and> e_reads env = []
        \<and> e_writes env = [WrShort n] \<and> 0 < n \<and> n < IOBUFFERSIZE env
        \<and> n < length (e_file env) \<longrightarrow>
      nsh_catfile env cmd fp = (OK, take n (e_file env) @ e_file env, [Text ''\<newline>''])
      \<and> take n (e_file env) @ e_file env \<noteq> e_file env)"
proof (intro conjI impI)
  assume h: "nbyteswritten < nbytesread \<and> n < nbytesread"
  then have lt: "nbyteswritten < nbytesread" and mn: "min n nbytesread = n" by simp_all
  show "catfile_write nosig cmd buffer nbytesread (WrShort n # wevs, stream, out, ret)
          nbyteswritten
        = catfile_write nosig cmd buffer nbytesread (wevs, stream @ take n buffer, out, ret)
            (nbyteswritten + n)"
    unfolding catfile_write_short[OF lt] mn by simp
next
  assume lt: "n < nbytesread"
  then have z: "0 < nbytesread" and mn: "min n nbytesread = n" by simp_all
  have a: "catfile_write nosig cmd buffer nbytesread ([WrShort n], stream, out, ret) 0
        = catfile_write nosig cmd buffer nbytesread ([], stream @ take n buffer, out, ret) n"
    unfolding catfile_write_short[OF z] mn by simp
  show "catfile_write nosig cmd buffer nbytesread ([WrShort n], stream, out, ret) 0
        = ([], stream @ take n buffer @ take nbytesread buffer, out, ret)"
    unfolding a catfile_write_full using lt by simp
next
  assume h: "e_open env fp = None \<and> e_malloc env = None \<and> e_writes env = []
        \<and> no_read_failure (e_reads env) \<and> 0 < IOBUFFERSIZE env"
  then have l: "catfile_loop (IOBUFFERSIZE env) (CONFIG_DISABLE_SIGNALS env) cmd (e_reads env)
        (e_file env) (replicate (IOBUFFERSIZE env) 0) (e_writes env, [], [], OK)
        = ([], [] @ e_file env, [], OK)"
    by (simp add: catfile_loop_full_writes)
  from h nsh_catfile_opened[OF _ _ l] show "nsh_catfile env cmd fp = (OK, e_file env, [Text ''\<newline>''])"
    by simp
next
  assume h: "e_open env fp = None \<and> e_malloc env = None \<and> e_reads env = []
        \<and> e_writes env = [WrShort n] \<and> 0 < n \<and> n < IOBUFFERSIZE env
        \<and> n < length (e_file env)"
  let ?iobs = "IOBUFFERSIZE env" and ?file = "e_file env" and ?nosig = "CONFIG_DISABLE_SIGNALS env"
  let ?data = "take ?iobs ?file"
  let ?buf = "?data @ drop (length ?data) (replicate ?iobs 0)"
  from h have n: "0 < n" "n < ?iobs" "n < length ?file" by simp_all
  then have d: "n < length ?data" by simp
  then have d0: "0 < length ?data" by linarith
  have tk: "take (length xs) (xs @ ys) = xs" for xs ys :: "byte list" by simp
  from d have tn: "take n ?buf = take n ?file" by simp
  have w: "catfile_write ?nosig cmd ?buf (length ?data) ([WrShort n], [], [], OK) 0
        = ([], take n ?file @ ?data, [], OK)"
  proof -
    from d have mn: "min n (length ?data) = n" by simp
    have "catfile_write ?nosig cmd ?buf (length ?data) ([WrShort n], [], [], OK) 0
        = catfile_write ?nosig cmd ?buf (length ?data) ([], [] @ take n ?buf, [], OK) n"
      unfolding catfile_write_short[OF d0] mn by simp
    also have "\<dots> = ([], ([] @ take n ?buf) @ take (length ?data) ?buf, [], OK)"
      unfolding catfile_write_full using d by (simp only: if_True)
    finally show ?thesis unfolding tk tn by simp
  qed
  have sr: "sys_read [] ?file ?iobs = (Inr ?data, [], drop ?iobs ?file)" by simp
  have "catfile_loop ?iobs ?nosig cmd [] ?file (replicate ?iobs 0) ([WrShort n], [], [], OK)
      = catfile_loop ?iobs ?nosig cmd [] (drop ?iobs ?file) ?buf ([], take n ?file @ ?data, [], OK)"
    unfolding catfile_loop.simps[of ?iobs ?nosig cmd "[]" ?file "replicate ?iobs 0"] sr
    using d0 w by simp
  also have "\<dots> = ([], (take n ?file @ ?data) @ drop ?iobs ?file, [], OK)"
    using n by (intro catfile_loop_full_writes) (simp_all add: no_read_failure_def)
  finally have l: "catfile_loop ?iobs ?nosig cmd (e_reads env) ?file (replicate ?iobs 0)
        (e_writes env, [], [], OK) = ([], take n ?file @ ?file, [], OK)"
    using h by simp
  from h nsh_catfile_opened[OF _ _ l]
  show "nsh_catfile env cmd fp = (OK, take n ?file @ ?file, [Text ''\<newline>''])"
    by simp
  from n show "take n ?file @ ?file \<noteq> ?file" by auto
qed

theorem nsh_catfile_partial_write_witness:
  "nsh_catfile ex_env_short ''cat'' ''/f'' = (OK, [97, 97, 98, 99], [Text ''\<newline>''])
   \<and> nsh_catfile ex_env ''cat'' ''/f'' = (OK, [97, 98, 99], [Text ''\<newline>''])"
proof -
  have a: "e_open ex_env_short ''/f'' = None \<and> e_malloc ex_env_short = None
        \<and> e_reads ex_env_short = [] \<and> e_writes ex_env_short = [WrShort 1] \<and> (0::nat) < 1
        \<and> 1 < IOBUFFERSIZE ex_env_short \<and> 1 < length (e_file ex_env_short)"
    by (simp add: ex_env_short_def)
  have b: "e_open ex_env ''/f'' = None \<and> e_malloc ex_env = None \<and> e_writes ex_env = []
        \<and> no_read_failure (e_reads ex_env) \<and> 0 < IOBUFFERSIZE ex_env"
    by (simp add: ex_env_def no_read_failure_def)
  from nsh_catfile_partial_write[where n = 1 and env = ex_env_short and fp = "''/f''"
      and cmd = "''cat''"] a
  have "nsh_catfile ex_env_short ''cat'' ''/f''
      = (OK, take 1 (e_file ex_env_short) @ e_file ex_env_short, [Text ''\<newline>''])"
    by blast
  moreover from nsh_catfile_partial_write[where env = ex_env and fp = "''/f''"
      and cmd = "''cat''"] b
  have "nsh_catfile ex_env ''cat'' ''/f'' = (OK, e_file ex_env, [Text ''\<newline>''])"
    by blast
  ultimately show ?thesis by (simp add: ex_env_short_def ex_env_def)
qed

end
